theory Spec2Isabelle
  imports Complex_Main "HOL-Library.Word" "HOL-Library.Char_ord" "HOL-Library.List_Lexorder"
    "HOL-Library.AList"
begin

unbundle bit_operations_syntax

section \<open>Durations and instants (Go's \<open>time\<close> package)\<close>

text \<open>
  A \<open>time.Duration\<close> is an \<open>int64\<close> count of nanoseconds. It is modelled as an
  \<open>int\<close>; every function below that produces one keeps it inside the \<open>int64\<close>
  range by the same checks the Go code performs.
\<close>

type_synonym Duration = int

definition maxDuration :: Duration where
  "maxDuration = 2 ^ 63 - 1"

definition minDuration :: Duration where
  "minDuration = - (2 ^ 63)"

definition Nanosecond :: Duration where
  "Nanosecond = 1"

definition Second :: Duration where
  "Second = 1000000000"

definition Minute :: Duration where
  "Minute = 60 * Second"

definition Hour :: Duration where
  "Hour = 60 * Minute"

text \<open>
  A \<open>time.Time\<close> is an instant with nanosecond precision together with a location.
  \<open>sec\<close> counts the seconds since January 1, year 1, 00:00:00 UTC (what Go's
  \<open>t.sec()\<close> returns), \<open>nsec\<close> is the nanosecond within that second
  (\<open>0 \<le> nsec < 10^9\<close>), and \<open>zone\<close> is the location's offset east of UTC in
  seconds (0 for UTC). Values stored in the registry never carry a monotonic clock
  reading: \<open>checkinHandler\<close> stores \<open>time.Now().UTC()\<close>, which strips it, and
  values decoded from JSON have none. \<open>Sub\<close> therefore always takes the wall-clock
  path, and the monotonic reading is not modelled.
\<close>

record Time =
  sec :: int
  nsec :: int
  zone :: int

definition zeroTime :: Time where
  "zeroTime = \<lparr>sec = 0, nsec = 0, zone = 0\<rparr>"

definition IsZero :: "Time \<Rightarrow> bool" where
  "IsZero t = (sec t = 0 \<and> nsec t = 0)"

text \<open>The exact number of nanoseconds from \<open>u\<close> to \<open>t\<close>.\<close>

definition nanos_between :: "Time \<Rightarrow> Time \<Rightarrow> int" where
  "nanos_between t u = (sec t - sec u) * 1000000000 + (nsec t - nsec u)"

text \<open>
  \<open>t.Sub(u)\<close>: the duration \<open>t - u\<close>; when that does not fit a \<open>Duration\<close> the
  maximum (or minimum) duration is returned.
\<close>

definition Sub :: "Time \<Rightarrow> Time \<Rightarrow> Duration" where
  "Sub t u =
     (let d = nanos_between t u in
      if d > maxDuration then maxDuration
      else if d < minDuration then minDuration
      else d)"

section \<open>Status evaluation\<close>

datatype verdict = OKAY | ALARM | NEVER

text \<open>
  The three-way decision taken inside \<open>printStatus\<close>, written on its own: the
  \<open>IsZero\<close> test first, then the comparison of the elapsed time with the window.
  \<open>printStatus\<close> itself is defined further down and is shown to print this verdict.
\<close>

definition evaluate :: "Duration \<Rightarrow> Time \<Rightarrow> Time \<Rightarrow> verdict" where
  "evaluate dur lastCheckin now =
     (if IsZero lastCheckin then NEVER
      else let since = Sub now lastCheckin in
           if since > dur then ALARM else OKAY)"

lemma evaluate_total: "evaluate dur lc now \<in> {OKAY, ALARM, NEVER}"
  by (cases "evaluate dur lc now") simp_all

section \<open>Key validation: the regular expression \<open>keyRe\<close>\<close>

text \<open>
  The part of Go's \<open>regexp\<close> syntax that \<open>keyRe\<close> uses: a character class,
  concatenation, one-or-more repetition (greedy) and a capturing group. A literal
  character is a one-element class. Strings are byte strings; every class of \<open>keyRe\<close>
  is ASCII, so a byte above 127 belongs to none of them, as a non-ASCII rune does not.
\<close>

datatype regex =
    Cls "char \<Rightarrow> bool"
  | Cat regex regex
  | Plus regex
  | Group regex

text \<open>
  A backtracking matcher in continuation-passing style. \<open>rmatch r s g k\<close> matches
  \<open>r\<close> at the start of \<open>s\<close>; \<open>g\<close> is the text captured by the group so far, and
  the continuation \<open>k\<close> receives the rest of the input and the capture. \<open>Plus\<close> is
  greedy: it tries another iteration before it tries to stop.
\<close>

fun rmatch :: "regex \<Rightarrow> string \<Rightarrow> string option \<Rightarrow> (string \<Rightarrow> string option \<Rightarrow> 'a option) \<Rightarrow> 'a option" where
  "rmatch (Cls p) s g k = (case s of [] \<Rightarrow> None | c # cs \<Rightarrow> if p c then k cs g else None)"
| "rmatch (Cat r1 r2) s g k = rmatch r1 s g (\<lambda>s' g'. rmatch r2 s' g' k)"
| "rmatch (Plus r) s g k =
     rmatch r s g (\<lambda>s' g'.
       if length s' < length s
       then (case rmatch (Plus r) s' g' k of Some x \<Rightarrow> Some x | None \<Rightarrow> k s' g')
       else k s' g')"
| "rmatch (Group r) s g k =
     rmatch r s g (\<lambda>s' g'. k s' (Some (take (length s - length s') s)))"

definition in_range :: "char \<Rightarrow> char \<Rightarrow> char \<Rightarrow> bool" where
  "in_range lo hi c = ((of_char lo :: int) \<le> of_char c \<and> (of_char c :: int) \<le> of_char hi)"

text \<open>\<open>[a-zA-Z0-9._-]\<close>\<close>

definition label_char :: "char \<Rightarrow> bool" where
  "label_char c =
     (in_range CHR ''a'' CHR ''z'' c \<or> in_range CHR ''A'' CHR ''Z'' c \<or> in_range CHR ''0'' CHR ''9'' c
      \<or> c = CHR ''.'' \<or> c = CHR ''_'' \<or> c = CHR ''-'')"

text \<open>\<open>\d\<close> (ASCII digits only in Go)\<close>

definition digit_char :: "char \<Rightarrow> bool" where
  "digit_char c = in_range CHR ''0'' CHR ''9'' c"

text \<open>\<open>[hms]\<close>\<close>

definition unit_char :: "char \<Rightarrow> bool" where
  "unit_char c = (c = CHR ''h'' \<or> c = CHR ''m'' \<or> c = CHR ''s'')"

text \<open>\<open>^[a-zA-Z0-9._-]+-(\d+[hms])$\<close> without its two anchors.\<close>

definition keyRe :: regex where
  "keyRe =
     Cat (Plus (Cls label_char))
       (Cat (Cls (\<lambda>c. c = CHR ''-''))
          (Group (Cat (Plus (Cls digit_char)) (Cls unit_char))))"

text \<open>
  \<open>keyRe.FindStringSubmatchIndex(key)\<close>, returning the text \<open>key[m[2]:m[3]]\<close> of
  group 1 instead of its indices, and \<open>None\<close> for Go's \<open>nil\<close>. The anchor \<open>^\<close> makes
  the match start at the first byte, and \<open>$\<close> (without the \<open>m\<close> flag) makes it end at
  the end of the text.
\<close>

definition keyRe_group :: "string \<Rightarrow> string option" where
  "keyRe_group key = rmatch keyRe key None (\<lambda>s' g. if s' = [] then g else None)"


section \<open>\<open>time.ParseDuration\<close>\<close>

text \<open>
  Go's \<open>time.ParseDuration\<close> works on \<open>uint64\<close> values; they are modelled as
  non-negative \<open>int\<close>s with the wrap-around \<open>mod 2 ^ 64\<close> written where the Go code adds or multiplies.
\<close>

datatype duration_error = InvalidDuration | MissingUnit | UnknownUnit | FractionNotModelled

text \<open>
  \<open>leadingInt\<close> consumes the leading \<open>[0-9]*\<close> of \<open>s\<close>. \<open>None\<close> is Go's
  \<open>errLeadingInt\<close> (the value does not fit).
\<close>

fun leadingInt_loop :: "int \<Rightarrow> string \<Rightarrow> (int \<times> string) option" where
  "leadingInt_loop x [] = Some (x, [])"
| "leadingInt_loop x (c # cs) =
     (if \<not> digit_char c then Some (x, c # cs)
      else if x > 2 ^ 63 div 10 then None
      else let x' = (x * 10 + of_char c - 48) mod 2 ^ 64 in
           if x' > 2 ^ 63 then None else leadingInt_loop x' cs)"

definition leadingInt :: "string \<Rightarrow> (int \<times> string) option" where
  "leadingInt s = leadingInt_loop 0 s"

text \<open>
  \<open>unitMap\<close>; the two spellings of the microsecond unit are the UTF-8 encodings of
  U+00B5 and U+03BC followed by \<open>s\<close>.
\<close>

definition unitMap :: "string \<Rightarrow> int option" where
  "unitMap u =
     (if u = ''ns'' then Some 1
      else if u = ''us'' then Some 1000
      else if u = [CHR 0xC2, CHR 0xB5, CHR ''s''] then Some 1000
      else if u = [CHR 0xCE, CHR 0xBC, CHR ''s''] then Some 1000
      else if u = ''ms'' then Some 1000000
      else if u = ''s'' then Some 1000000000
      else if u = ''m'' then Some 60000000000
      else if u = ''h'' then Some 3600000000000
      else None)"

definition unit_stop :: "char \<Rightarrow> bool" where
  "unit_stop c = (c = CHR ''.'' \<or> digit_char c)"

lemma leadingInt_loop_length:
  "leadingInt_loop x s = Some (v, s1) \<Longrightarrow> length s1 \<le> length s"
proof (induction s arbitrary: x)
  case Nil
  then show ?case by simp
next
  case (Cons c cs)
  show ?case
  proof (cases "digit_char c")
    case False
    with Cons.prems show ?thesis by simp
  next
    case True
    with Cons.prems obtain x' where "leadingInt_loop x' cs = Some (v, s1)"
      by (auto simp: Let_def split: if_splits)
    from Cons.IH [OF this] show ?thesis by simp
  qed
qed

text \<open>
  The loop \<open>for s != ""\<close> of \<open>ParseDuration\<close>, with the accumulated value \<open>d\<close>. One
  branch is not modelled: a segment with a decimal point (\<open>1.5h\<close>) is computed by Go in
  \<open>float64\<close>, and the model answers \<open>FractionNotModelled\<close> there. \<open>parse\<close> never
  reaches that branch, because group 1 of \<open>keyRe\<close> holds digits and one letter only
  (lemma \<open>ParseDuration_digits_unit\<close> below covers every such string).
\<close>

function ParseDuration_loop :: "int \<Rightarrow> string \<Rightarrow> duration_error + int" where
  "ParseDuration_loop d s =
     (if s = [] then Inr d
      else if \<not> (hd s = CHR ''.'' \<or> digit_char (hd s)) then Inl InvalidDuration
      else
        case leadingInt s of
          None \<Rightarrow> Inl InvalidDuration
        | Some (v, s1) \<Rightarrow>
            let pre = (length s \<noteq> length s1) in
            if s1 \<noteq> [] \<and> hd s1 = CHR ''.'' then Inl FractionNotModelled
            else if \<not> pre then Inl InvalidDuration
            else
              let u = takeWhile (\<lambda>c. \<not> unit_stop c) s1;
                  s2 = dropWhile (\<lambda>c. \<not> unit_stop c) s1
              in
              if u = [] then Inl MissingUnit
              else
                case unitMap u of
                  None \<Rightarrow> Inl UnknownUnit
                | Some unit \<Rightarrow>
                    if v > 2 ^ 63 div unit then Inl InvalidDuration
                    else
                      let v' = (v * unit) mod 2 ^ 64;
                          d' = (d + v') mod 2 ^ 64
                      in if d' > 2 ^ 63 then Inl InvalidDuration
                         else ParseDuration_loop d' s2)"
  by pat_completeness auto
termination
proof (relation "measure (\<lambda>(d, s). length s)")
  show "wf (measure (\<lambda>(d, s). length s))" by simp
next
  fix d :: int and s :: string and x2 v s1 pre u s2 unit v' d'
  assume a: "leadingInt s = Some x2" "(v, s1) = x2"
    and u: "u = takeWhile (\<lambda>c. \<not> unit_stop c) s1" "u \<noteq> []"
    and s2: "s2 = dropWhile (\<lambda>c. \<not> unit_stop c) s1"
  from a have "length s1 \<le> length s"
    using leadingInt_loop_length [of 0 s v s1] by (simp add: leadingInt_def)
  moreover have "length s1 = length u + length s2"
    using u s2 takeWhile_dropWhile_id [of "\<lambda>c. \<not> unit_stop c" s1]
    by (metis length_append)
  moreover have "0 < length u" using u by simp
  ultimately have "length s2 < length s" by linarith
  then show "((d', s2), (d, s)) \<in> measure (\<lambda>(d, s). length s)" by simp
qed

definition ParseDuration :: "string \<Rightarrow> duration_error + Duration" where
  "ParseDuration orig =
     (let neg = (orig \<noteq> [] \<and> hd orig = CHR ''-'');
          s = (if orig \<noteq> [] \<and> (hd orig = CHR ''-'' \<or> hd orig = CHR ''+'') then tl orig else orig)
      in
      if s = ''0'' then Inr 0
      else if s = [] then Inl InvalidDuration
      else
        case ParseDuration_loop 0 s of
          Inl e \<Rightarrow> Inl e
        | Inr d \<Rightarrow>
            if neg then Inr (- d)
            else if d > 2 ^ 63 - 1 then Inl InvalidDuration
            else Inr d)"

section \<open>\<open>must\<close> and \<open>parse\<close>\<close>

text \<open>A Go call either returns a value or panics.\<close>

datatype 'a outcome = Panic | Return 'a

definition must :: "'e + 'a \<Rightarrow> 'a outcome" where
  "must r = (case r of Inl err \<Rightarrow> Panic | Inr v \<Rightarrow> Return v)"

definition parse :: "string \<Rightarrow> (Duration \<times> bool) outcome" where
  "parse k =
     (case keyRe_group k of
        None \<Rightarrow> Return (0, False)
      | Some grp \<Rightarrow>
          (case must (ParseDuration grp) of
             Panic \<Rightarrow> Panic
           | Return d \<Rightarrow> Return (d, True)))"


section \<open>Lemmas: what \<open>keyRe\<close> matches\<close>

declare rmatch.simps(3) [simp del]

lemma rmatch_Plus_Cls_Nil: "rmatch (Plus (Cls p)) [] g k = None"
  by (subst rmatch.simps(3)) simp

lemma rmatch_Plus_Cls_Cons:
  "rmatch (Plus (Cls p)) (c # cs) g k =
     (if p c then (case rmatch (Plus (Cls p)) cs g k of Some x \<Rightarrow> Some x | None \<Rightarrow> k cs g) else None)"
  by (subst rmatch.simps(3)) simp

lemma rmatch_Plus_Cls_sound:
  "rmatch (Plus (Cls p)) s g k = Some x \<Longrightarrow>
     \<exists>a b. s = a @ b \<and> a \<noteq> [] \<and> (\<forall>c\<in>set a. p c) \<and> k b g = Some x"
proof (induction s)
  case Nil
  then show ?case by (simp add: rmatch_Plus_Cls_Nil)
next
  case (Cons c cs)
  from Cons.prems have pc: "p c"
    by (cases "p c") (simp_all add: rmatch_Plus_Cls_Cons del: rmatch.simps)
  show ?case
  proof (cases "rmatch (Plus (Cls p)) cs g k")
    case None
    with Cons.prems pc have "k cs g = Some x"
      by (simp add: rmatch_Plus_Cls_Cons del: rmatch.simps)
    with pc have "c # cs = [c] @ cs \<and> [c] \<noteq> [] \<and> (\<forall>c\<in>set [c]. p c) \<and> k cs g = Some x"
      by simp
    then show ?thesis by blast
  next
    case (Some y)
    with Cons.prems pc have "y = x"
      by (simp add: rmatch_Plus_Cls_Cons del: rmatch.simps)
    with Some Cons.IH obtain a b where ab: "cs = a @ b" "a \<noteq> []" "\<forall>c\<in>set a. p c" "k b g = Some x"
      by blast
    with pc have "c # cs = (c # a) @ b \<and> c # a \<noteq> [] \<and> (\<forall>c\<in>set (c # a). p c) \<and> k b g = Some x"
      by simp
    then show ?thesis by blast
  qed
qed

lemma rmatch_Plus_Cls_complete:
  "a \<noteq> [] \<Longrightarrow> \<forall>c\<in>set a. p c \<Longrightarrow> k b g = Some x \<Longrightarrow>
     \<exists>y. rmatch (Plus (Cls p)) (a @ b) g k = Some y"
proof (induction a)
  case Nil
  then show ?case by simp
next
  case (Cons c cs)
  show ?case
  proof (cases "cs = []")
    case True
    with Cons.prems show ?thesis
      by (cases "rmatch (Plus (Cls p)) b g k") (simp_all add: rmatch_Plus_Cls_Cons del: rmatch.simps)
  next
    case False
    with Cons obtain y where "rmatch (Plus (Cls p)) (cs @ b) g k = Some y" by auto
    with Cons.prems show ?thesis
      by (simp add: rmatch_Plus_Cls_Cons del: rmatch.simps)
  qed
qed

definition key_parts :: "string \<Rightarrow> string \<Rightarrow> char \<Rightarrow> bool" where
  "key_parts label ds u =
     (label \<noteq> [] \<and> list_all label_char label \<and> ds \<noteq> [] \<and> list_all digit_char ds \<and> unit_char u)"

definition at_end :: "string \<Rightarrow> string option \<Rightarrow> string option" where
  "at_end s' g = (if s' = [] then g else None)"

lemma keyRe_group_unfold:
  "keyRe_group k =
     rmatch (Plus (Cls label_char)) k None (\<lambda>s1 g1.
       rmatch (Cls (\<lambda>c. c = CHR ''-'')) s1 g1 (\<lambda>s2 g2.
         rmatch (Plus (Cls digit_char)) s2 g2 (\<lambda>s3 g3.
           rmatch (Cls unit_char) s3 g3 (\<lambda>s4 g4.
             at_end s4 (Some (take (length s2 - length s4) s2))))))"
  unfolding keyRe_group_def keyRe_def at_end_def
  by (simp only: rmatch.simps(2) rmatch.simps(4))

lemma rmatch_Cls_Some:
  "rmatch (Cls p) s g k = Some x \<Longrightarrow> \<exists>c cs. s = c # cs \<and> p c \<and> k cs g = Some x"
  by (cases s) (auto split: if_splits)

lemma keyRe_group_sound:
  assumes "keyRe_group k = Some grp"
  shows "\<exists>label ds u. k = label @ ''-'' @ ds @ [u] \<and> key_parts label ds u \<and> grp = ds @ [u]"
proof -
  let ?K4 = "\<lambda>s2 s4 (g4 :: string option). at_end s4 (Some (take (length s2 - length s4) s2))"
  let ?K3 = "\<lambda>s2 s3 g3. rmatch (Cls unit_char) s3 g3 (?K4 s2)"
  let ?K2 = "\<lambda>s2 g2. rmatch (Plus (Cls digit_char)) s2 g2 (?K3 s2)"
  let ?K1 = "\<lambda>s1 g1. rmatch (Cls (\<lambda>c. c = CHR ''-'')) s1 g1 ?K2"
  from assms have "rmatch (Plus (Cls label_char)) k None ?K1 = Some grp"
    by (simp only: keyRe_group_unfold)
  from rmatch_Plus_Cls_sound [OF this]
  obtain label s1 where 1: "k = label @ s1" "label \<noteq> []" "\<forall>c\<in>set label. label_char c"
    and k1: "?K1 s1 None = Some grp" by blast
  from rmatch_Cls_Some [OF k1]
  obtain s2 where 2: "s1 = CHR ''-'' # s2" and k2: "?K2 s2 None = Some grp" by blast
  from rmatch_Plus_Cls_sound [OF k2]
  obtain ds s3 where 3: "s2 = ds @ s3" "ds \<noteq> []" "\<forall>c\<in>set ds. digit_char c"
    and k3: "?K3 s2 s3 None = Some grp" by blast
  from rmatch_Cls_Some [OF k3]
  obtain u s4 where 4: "s3 = u # s4" "unit_char u" and k4: "?K4 s2 s4 None = Some grp" by blast
  from k4 have 5: "s4 = []" "grp = s2"
    by (auto simp: at_end_def split: if_splits)
  have "k = label @ ''-'' @ ds @ [u]" using 1 2 3 4 5 by simp
  moreover have "key_parts label ds u" using 1 3 4 by (simp add: key_parts_def list_all_iff)
  moreover have "grp = ds @ [u]" using 3 4 5 by simp
  ultimately show ?thesis by blast
qed

lemma keyRe_group_complete:
  assumes "key_parts label ds u"
  shows "\<exists>grp. keyRe_group (label @ ''-'' @ ds @ [u]) = Some grp"
proof -
  let ?s2 = "ds @ [u]"
  let ?K4 = "\<lambda>s2 s4 (g4 :: string option). at_end s4 (Some (take (length s2 - length s4) s2))"
  let ?K3 = "\<lambda>s2 s3 g3. rmatch (Cls unit_char) s3 g3 (?K4 s2)"
  let ?K2 = "\<lambda>s2 g2. rmatch (Plus (Cls digit_char)) s2 g2 (?K3 s2)"
  let ?K1 = "\<lambda>s1 g1. rmatch (Cls (\<lambda>c. c = CHR ''-'')) s1 g1 ?K2"
  from assms have a: "label \<noteq> []" "\<forall>c\<in>set label. label_char c" "ds \<noteq> []"
    "\<forall>c\<in>set ds. digit_char c" "unit_char u"
    by (simp_all add: key_parts_def list_all_iff)
  have "?K3 ?s2 [u] None = Some ?s2" using a(5) by (simp add: at_end_def)
  from rmatch_Plus_Cls_complete [where a = ds and p = digit_char and k = "?K3 ?s2"
      and b = "[u]" and g = None and x = ?s2, OF a(3) a(4) this]
  obtain y where "?K2 ?s2 None = Some y" by blast
  moreover have "?K1 (''-'' @ ?s2) None = ?K2 ?s2 None"
    by (subst rmatch.simps(1)) simp
  ultimately have "?K1 (''-'' @ ?s2) None = Some y" by (simp only:)
  from rmatch_Plus_Cls_complete [where a = label and p = label_char and k = ?K1
      and b = "''-'' @ ?s2" and g = None and x = y, OF a(1) a(2) this]
  obtain z where "rmatch (Plus (Cls label_char)) (label @ ''-'' @ ?s2) None ?K1 = Some z" by blast
  then show ?thesis by (simp only: keyRe_group_unfold) blast
qed

definition key_digits :: "string \<Rightarrow> string" where
  "key_digits s = rev (takeWhile digit_char (rev (butlast s)))"

definition key_label :: "string \<Rightarrow> string" where
  "key_label s = butlast (rev (dropWhile digit_char (rev (butlast s))))"

definition key_shape :: "string \<Rightarrow> bool" where
  "key_shape s =
     (s \<noteq> [] \<and> key_parts (key_label s) (key_digits s) (last s)
      \<and> s = key_label s @ ''-'' @ key_digits s @ [last s])"

lemma dash_not_digit: "\<not> digit_char CHR ''-''"
  by (simp add: digit_char_def in_range_def)

lemma key_decomp:
  assumes "list_all digit_char ds"
  shows "key_digits (label @ ''-'' @ ds @ [u]) = ds"
    and "key_label (label @ ''-'' @ ds @ [u]) = label"
    and "last (label @ ''-'' @ ds @ [u]) = u"
proof -
  have b: "butlast (label @ ''-'' @ ds @ [u]) = label @ ''-'' @ ds"
    by (simp add: butlast_append)
  have r: "rev (label @ ''-'' @ ds) = rev ds @ CHR ''-'' # rev label" by simp
  have all: "\<forall>c\<in>set (rev ds). digit_char c" using assms by (simp add: list_all_iff)
  have "takeWhile digit_char (rev ds @ CHR ''-'' # rev label)
          = rev ds @ takeWhile digit_char (CHR ''-'' # rev label)"
    by (rule takeWhile_append2) (use all in blast)
  then have t: "takeWhile digit_char (rev ds @ CHR ''-'' # rev label) = rev ds"
    using dash_not_digit by simp
  have "dropWhile digit_char (rev ds @ CHR ''-'' # rev label)
          = dropWhile digit_char (CHR ''-'' # rev label)"
    by (rule dropWhile_append2) (use all in blast)
  then have d: "dropWhile digit_char (rev ds @ CHR ''-'' # rev label) = CHR ''-'' # rev label"
    using dash_not_digit by simp
  show "key_digits (label @ ''-'' @ ds @ [u]) = ds"
    unfolding key_digits_def b r t by simp
  show "key_label (label @ ''-'' @ ds @ [u]) = label"
    unfolding key_label_def b r d by simp
  show "last (label @ ''-'' @ ds @ [u]) = u" by simp
qed

lemma key_shape_iff:
  "key_shape s = (\<exists>label ds u. s = label @ ''-'' @ ds @ [u] \<and> key_parts label ds u)"
proof
  assume "key_shape s"
  then show "\<exists>label ds u. s = label @ ''-'' @ ds @ [u] \<and> key_parts label ds u"
    unfolding key_shape_def by blast
next
  assume "\<exists>label ds u. s = label @ ''-'' @ ds @ [u] \<and> key_parts label ds u"
  then obtain label ds u where s: "s = label @ ''-'' @ ds @ [u]" and p: "key_parts label ds u"
    by blast
  from p have "list_all digit_char ds" by (simp add: key_parts_def)
  from key_decomp [OF this, of label u] s p show "key_shape s"
    unfolding key_shape_def by simp
qed

lemma keyRe_group_iff:
  "keyRe_group k = Some grp \<longleftrightarrow> key_shape k \<and> grp = key_digits k @ [last k]"
proof
  assume "keyRe_group k = Some grp"
  from keyRe_group_sound [OF this]
  obtain label ds u where s: "k = label @ ''-'' @ ds @ [u]" and p: "key_parts label ds u"
    and g: "grp = ds @ [u]" by blast
  from p have d: "list_all digit_char ds" by (simp add: key_parts_def)
  have "key_shape k" using s p key_shape_iff by blast
  moreover have "grp = key_digits k @ [last k]"
    using key_decomp [OF d, of label u] s g by simp
  ultimately show "key_shape k \<and> grp = key_digits k @ [last k]" ..
next
  assume a: "key_shape k \<and> grp = key_digits k @ [last k]"
  then have p: "key_parts (key_label k) (key_digits k) (last k)"
    and s: "k = key_label k @ ''-'' @ key_digits k @ [last k]"
    by (simp_all add: key_shape_def)
  from keyRe_group_complete [OF p] s obtain y where y: "keyRe_group k = Some y" by auto
  from keyRe_group_sound [OF this]
  obtain label ds u where s': "k = label @ ''-'' @ ds @ [u]" and p': "key_parts label ds u"
    and g: "y = ds @ [u]" by blast
  from p' have d: "list_all digit_char ds" by (simp add: key_parts_def)
  have "y = key_digits k @ [last k]"
    using key_decomp [OF d, of label u] s' g by simp
  with y a show "keyRe_group k = Some grp" by simp
qed

lemma keyRe_group_None: "keyRe_group k = None \<longleftrightarrow> \<not> key_shape k"
  using keyRe_group_iff [of k] by (cases "keyRe_group k") auto


section \<open>Lemmas: \<open>ParseDuration\<close> on a run of digits and a unit\<close>

definition dec_from :: "int \<Rightarrow> string \<Rightarrow> int" where
  "dec_from x ds = foldl (\<lambda>x c. x * 10 + (of_char c - 48)) x ds"

definition dec_val :: "string \<Rightarrow> int" where
  "dec_val ds = dec_from 0 ds"

definition unit_nanos :: "char \<Rightarrow> int" where
  "unit_nanos u = (if u = CHR ''h'' then Hour else if u = CHR ''m'' then Minute else Second)"

lemma dec_from_Nil [simp]: "dec_from x [] = x"
  by (simp add: dec_from_def)

lemma dec_from_Cons [simp]: "dec_from x (c # cs) = dec_from (x * 10 + (of_char c - 48)) cs"
  by (simp add: dec_from_def)

lemma digit_char_range: "digit_char c \<Longrightarrow> 48 \<le> (of_char c :: int) \<and> (of_char c :: int) \<le> 57"
  by (simp add: digit_char_def in_range_def)

lemma dec_from_ge: "0 \<le> x \<Longrightarrow> list_all digit_char ds \<Longrightarrow> x \<le> dec_from x ds"
proof (induction ds arbitrary: x)
  case Nil
  then show ?case by simp
next
  case (Cons c cs)
  then have c: "48 \<le> (of_char c :: int)" and cs: "list_all digit_char cs"
    using digit_char_range by auto
  have "x \<le> x * 10 + (of_char c - 48)" using Cons.prems(1) c by linarith
  also have "\<dots> \<le> dec_from (x * 10 + (of_char c - 48)) cs"
    using Cons.IH [of "x * 10 + (of_char c - 48)"] Cons.prems(1) c cs by simp
  finally show ?case by simp
qed

lemma leadingInt_loop_digits:
  assumes "0 \<le> x" "x \<le> 2 ^ 63" "list_all digit_char ds"
    "rest = [] \<or> \<not> digit_char (hd rest)"
  shows "leadingInt_loop x (ds @ rest) =
           (if dec_from x ds \<le> 2 ^ 63 then Some (dec_from x ds, rest) else None)"
  using assms
proof (induction ds arbitrary: x)
  case Nil
  show ?case
  proof (cases rest)
    case Nil
    with Nil.prems(2) show ?thesis by simp
  next
    case (Cons r rs)
    with Nil.prems show ?thesis by simp
  qed
next
  case (Cons c cs)
  then have c: "48 \<le> (of_char c :: int)" "(of_char c :: int) \<le> 57" "digit_char c"
    and cs: "list_all digit_char cs"
    using digit_char_range by auto
  let ?y = "x * 10 + (of_char c - 48)"
  have y0: "0 \<le> ?y" using Cons.prems(1) c by linarith
  have ge: "?y \<le> dec_from ?y cs" using dec_from_ge [OF y0 cs] .
  show ?case
  proof (cases "x > 2 ^ 63 div 10")
    case True
    then have "?y > 2 ^ 63" using c by simp
    with ge True c(3) show ?thesis by simp
  next
    case False
    then have "?y < 2 ^ 64" using c by simp
    with y0 have m: "(x * 10 + of_char c - 48) mod 2 ^ 64 = ?y" by simp
    show ?thesis
    proof (cases "?y > 2 ^ 63")
      case True
      with ge False c(3) m show ?thesis by (simp add: Let_def)
    next
      case big: False
      then have "?y \<le> 2 ^ 63" by simp
      from Cons.IH [OF y0 this cs Cons.prems(4)] False c(3) m big show ?thesis
        by (simp add: Let_def)
    qed
  qed
qed

lemma unit_not_stop: "unit_char u \<Longrightarrow> \<not> unit_stop u \<and> \<not> digit_char u"
  by (auto simp: unit_char_def unit_stop_def digit_char_def in_range_def)

lemma unitMap_unit: "unit_char u \<Longrightarrow> unitMap [u] = Some (unit_nanos u)"
  by (auto simp: unit_char_def unitMap_def unit_nanos_def Hour_def Minute_def Second_def)

lemma unit_nanos_pos: "0 < unit_nanos u"
  by (simp add: unit_nanos_def Hour_def Minute_def Second_def)

lemma digit_not_sign: "digit_char c \<Longrightarrow> c \<noteq> CHR ''-'' \<and> c \<noteq> CHR ''+'' \<and> c \<noteq> CHR ''.''"
  by (auto simp: digit_char_def in_range_def)

lemma leadingInt_digits_unit:
  assumes "list_all digit_char ds" "unit_char u"
  shows "leadingInt (ds @ [u]) = (if dec_val ds \<le> 2 ^ 63 then Some (dec_val ds, [u]) else None)"
  using leadingInt_loop_digits [of 0 ds "[u]"] assms unit_not_stop [of u]
  by (simp add: leadingInt_def dec_val_def)

declare ParseDuration_loop.simps [simp del]

lemma ParseDuration_loop_Nil: "ParseDuration_loop d [] = Inr d"
  by (subst ParseDuration_loop.simps) simp

lemma ParseDuration_loop_digits_unit:
  assumes ds: "ds \<noteq> []" "list_all digit_char ds" and u: "unit_char u"
  shows "ParseDuration_loop 0 (ds @ [u]) =
           (if dec_val ds \<le> 2 ^ 63 div unit_nanos u
            then Inr (dec_val ds * unit_nanos u) else Inl InvalidDuration)"
proof -
  from ds have h: "digit_char (hd (ds @ [u]))" by (cases ds) auto
  have ne: "ds @ [u] \<noteq> []" by simp
  have len: "length (ds @ [u]) \<noteq> length [u]" using ds(1) by simp
  have v0: "0 \<le> dec_val ds" using dec_from_ge [of 0 ds] ds by (simp add: dec_val_def)
  have un: "unit_nanos u = 3600000000000 \<or> unit_nanos u = 60000000000 \<or> unit_nanos u = 1000000000"
    by (simp add: unit_nanos_def Hour_def Minute_def Second_def)
  have tw: "takeWhile (\<lambda>c. \<not> unit_stop c) [u] = [u]" "dropWhile (\<lambda>c. \<not> unit_stop c) [u] = []"
    using unit_not_stop [OF u] by simp_all
  have udot: "hd [u] \<noteq> CHR ''.''" using unit_not_stop [OF u] by (auto simp: unit_stop_def)
  note li = leadingInt_digits_unit [OF ds(2) u]
  show ?thesis
  proof (cases "dec_val ds \<le> 2 ^ 63")
    case False
    then have "\<not> dec_val ds \<le> 2 ^ 63 div unit_nanos u" using un by auto
    with False h ne show ?thesis
      by (subst ParseDuration_loop.simps) (simp only: li if_False if_True option.case HOL.simp_thms)
  next
    case True
    show ?thesis
    proof (cases "dec_val ds \<le> 2 ^ 63 div unit_nanos u")
      case False
      then have "2 ^ 63 div unit_nanos u < dec_val ds" by simp
      with False True h ne len udot tw show ?thesis
        by (subst ParseDuration_loop.simps)
           (simp only: li unitMap_unit [OF u] Let_def if_False if_True option.case prod.case
              HOL.simp_thms list.distinct)
    next
      case small: True
      then have le: "dec_val ds * unit_nanos u \<le> 2 ^ 63" using un v0 by auto
      have ge: "0 \<le> dec_val ds * unit_nanos u" using un v0 by auto
      from le ge have m: "(dec_val ds * unit_nanos u) mod 2 ^ 64 = dec_val ds * unit_nanos u"
        by simp
      from small have ns: "\<not> 2 ^ 63 div unit_nanos u < dec_val ds" by simp
      from le have nb: "\<not> 2 ^ 63 < dec_val ds * unit_nanos u" by simp
      from True small h ne len udot tw ns nb m show ?thesis
        by (subst ParseDuration_loop.simps)
           (simp only: li unitMap_unit [OF u] Let_def if_False if_True option.case prod.case
              HOL.simp_thms list.distinct ParseDuration_loop_Nil add_0)
    qed
  qed
qed

lemma ParseDuration_digits_unit:
  assumes ds: "ds \<noteq> []" "list_all digit_char ds" and u: "unit_char u"
  shows "ParseDuration (ds @ [u]) =
           (if dec_val ds * unit_nanos u \<le> maxDuration
            then Inr (dec_val ds * unit_nanos u) else Inl InvalidDuration)"
proof -
  from ds have h: "digit_char (hd (ds @ [u]))" by (cases ds) auto
  have ne: "ds @ [u] \<noteq> []" by simp
  have v0: "0 \<le> dec_val ds" using dec_from_ge [of 0 ds] ds by (simp add: dec_val_def)
  have un: "unit_nanos u = 3600000000000 \<or> unit_nanos u = 60000000000 \<or> unit_nanos u = 1000000000"
    by (simp add: unit_nanos_def Hour_def Minute_def Second_def)
  have nz: "ds @ [u] \<noteq> ''0''" using ds(1) by (cases ds) auto
  have sg: "hd (ds @ [u]) \<noteq> CHR ''-''" "hd (ds @ [u]) \<noteq> CHR ''+''"
    using digit_not_sign [OF h] by simp_all
  have eq: "(dec_val ds \<le> 2 ^ 63 div unit_nanos u \<and> \<not> dec_val ds * unit_nanos u > 2 ^ 63 - 1)
            = (dec_val ds * unit_nanos u \<le> maxDuration)"
    using un v0 by (auto simp: maxDuration_def)
  have "ParseDuration (ds @ [u]) =
          (case ParseDuration_loop 0 (ds @ [u]) of Inl e \<Rightarrow> Inl e
           | Inr d \<Rightarrow> if d > 2 ^ 63 - 1 then Inl InvalidDuration else Inr d)"
    unfolding ParseDuration_def Let_def using ne nz sg by (simp only: HOL.simp_thms if_False)
  also have "\<dots> = (if dec_val ds * unit_nanos u \<le> maxDuration
            then Inr (dec_val ds * unit_nanos u) else Inl InvalidDuration)"
    unfolding ParseDuration_loop_digits_unit [OF ds u] using eq by auto
  finally show ?thesis .
qed


section \<open>Theorems about \<open>parse\<close>\<close>

lemma parse_shape:
  assumes "key_shape k"
  shows "parse k =
           (if dec_val (key_digits k) * unit_nanos (last k) \<le> maxDuration
            then Return (dec_val (key_digits k) * unit_nanos (last k), True) else Panic)"
proof -
  from assms have p: "key_parts (key_label k) (key_digits k) (last k)"
    by (simp add: key_shape_def)
  then have ds: "key_digits k \<noteq> []" "list_all digit_char (key_digits k)" and u: "unit_char (last k)"
    by (simp_all add: key_parts_def)
  have g: "keyRe_group k = Some (key_digits k @ [last k])"
    using assms keyRe_group_iff by blast
  show ?thesis
    by (simp add: parse_def g ParseDuration_digits_unit [OF ds u] must_def)
qed

lemma parse_no_shape: "\<not> key_shape k \<Longrightarrow> parse k = Return (0, False)"
  using keyRe_group_None [of k] by (simp add: parse_def)

lemma parse_invalid_iff: "parse k = Return (0, False) \<longleftrightarrow> \<not> key_shape k"
proof
  assume a: "parse k = Return (0, False)"
  show "\<not> key_shape k"
  proof
    assume "key_shape k"
    from parse_shape [OF this] a show False by (simp split: if_splits)
  qed
next
  assume "\<not> key_shape k"
  then show "parse k = Return (0, False)" by (rule parse_no_shape)
qed

lemma parse_ok_shape: "parse k = Return (d, True) \<Longrightarrow> key_shape k"
  using parse_no_shape [of k] by (cases "key_shape k") auto

text \<open>
  The key pattern in the words of the specification, which asks for a \<^emph>\<open>positive\<close>
  integer before the unit: a string of the shape accepted by \<open>key_shape\<close> whose run
  of digits denotes a number greater than zero.
\<close>

definition spec_valid_key :: "string \<Rightarrow> bool" where
  "spec_valid_key s = (key_shape s \<and> 0 < dec_val (key_digits s))"

text \<open>
  Claim C2, as amended. \<open>parse\<close> signals an invalid key (returns \<open>(0, false)\<close>)
  exactly for the strings that are not of the form: one or more characters from
  \<open>[a-zA-Z0-9._-]\<close>, a literal \<open>-\<close>, one or more decimal digits, and one unit
  letter \<open>h\<close>, \<open>m\<close> or \<open>s\<close> as the last character. The digits denote any
  natural number, zero and leading zeros included. For a string of that form whose
  number scaled by the unit fits a \<open>Duration\<close>, \<open>parse\<close> accepts and returns the
  number scaled by the unit (in nanoseconds).
\<close>

theorem parse_key_pattern:
  "(parse s = Return (0, False)
      \<longleftrightarrow> \<not> (\<exists>label ds u. s = label @ ''-'' @ ds @ [u] \<and> key_parts label ds u))
   \<and> (key_parts label ds u \<and> dec_val ds * unit_nanos u \<le> maxDuration
      \<longrightarrow> parse (label @ ''-'' @ ds @ [u]) = Return (dec_val ds * unit_nanos u, True))"
proof (intro conjI impI)
  show "parse s = Return (0, False)
      \<longleftrightarrow> \<not> (\<exists>label ds u. s = label @ ''-'' @ ds @ [u] \<and> key_parts label ds u)"
    by (simp only: parse_invalid_iff key_shape_iff)
next
  assume a: "key_parts label ds u \<and> dec_val ds * unit_nanos u \<le> maxDuration"
  let ?k = "label @ ''-'' @ ds @ [u]"
  from a have d: "list_all digit_char ds" by (simp add: key_parts_def)
  have "key_shape ?k" using a key_shape_iff by blast
  from parse_shape [OF this] key_decomp [OF d, of label u] a
  show "parse ?k = Return (dec_val ds * unit_nanos u, True)" by simp
qed

theorem parse_key_pattern_witness:
  "key_parts ''backup'' ''24'' CHR ''h''
   \<and> dec_val ''24'' * unit_nanos CHR ''h'' \<le> maxDuration
   \<and> parse ''backup-24h'' = Return (86400000000000, True)
   \<and> parse ''x'' = Return (0, False)"
proof -
  have a: "key_parts ''backup'' ''24'' CHR ''h''"
    by (simp add: key_parts_def label_char_def digit_char_def unit_char_def in_range_def)
  have v: "dec_val ''24'' * unit_nanos CHR ''h'' = 86400000000000"
    by (simp add: dec_val_def unit_nanos_def Hour_def Minute_def Second_def)
  have b: "dec_val ''24'' * unit_nanos CHR ''h'' \<le> maxDuration"
    by (simp add: v maxDuration_def)
  have c: "parse ''backup-24h'' = Return (86400000000000, True)"
    using parse_key_pattern [of "''x''" "''backup''" "''24''" "CHR ''h''"] a b v by simp
  have d: "parse ''x'' = Return (0, False)"
    by code_simp
  from a b c d show ?thesis by blast
qed

text \<open>
  Claim C2 as stated fails: the key \<open>a-0h\<close> is accepted, with a window of zero,
  although \<open>0\<close> is not a positive integer.
\<close>

theorem parse_accepts_zero_counterexample:
  "parse ''a-0h'' = Return (0, True) \<and> \<not> spec_valid_key ''a-0h''"
  by code_simp

text \<open>
  Claim C9 says that \<open>time.ParseDuration\<close> succeeds on every string that \<open>keyRe\<close>
  accepts, so that \<open>must\<close> never panics inside \<open>parse\<close>. The key \<open>a-2562048h\<close>
  matches \<open>keyRe\<close>, but 2562048 hours exceed the largest \<open>Duration\<close>
  (\<open>2^63 - 1\<close> nanoseconds, a little over 2562047 hours): \<open>ParseDuration\<close>
  returns an error and \<open>must\<close> panics.
\<close>

theorem parse_panics_on_overflow:
  "keyRe_group ''a-2562048h'' = Some ''2562048h''
   \<and> ParseDuration ''2562048h'' = Inl InvalidDuration
   \<and> parse ''a-2562048h'' = Panic"
  by code_simp


section \<open>Lemmas about the elapsed time and the decision\<close>

lemma Sub_exact:
  "minDuration \<le> nanos_between t u \<Longrightarrow> nanos_between t u \<le> maxDuration
     \<Longrightarrow> Sub t u = nanos_between t u"
  by (simp add: Sub_def Let_def)

lemma Sub_gt_iff:
  "minDuration \<le> w \<Longrightarrow> w < maxDuration \<Longrightarrow> (Sub t u > w) = (nanos_between t u > w)"
  by (auto simp: Sub_def Let_def)

text \<open>
  The decision of \<open>printStatus\<close> taken on its own, with \<open>since = now.Sub(lastCheckin)\<close>
  as \<open>printStatus\<close> computes it.
\<close>

lemma evaluate_cases:
  "(evaluate w lastSeen now = OKAY \<longleftrightarrow> \<not> IsZero lastSeen \<and> Sub now lastSeen \<le> w)
   \<and> (evaluate w lastSeen now = ALARM \<longleftrightarrow> \<not> IsZero lastSeen \<and> Sub now lastSeen > w)
   \<and> (evaluate w lastSeen now = NEVER \<longleftrightarrow> IsZero lastSeen)
   \<and> evaluate (Sub now lastSeen) lastSeen now = (if IsZero lastSeen then NEVER else OKAY)"
  by (auto simp: evaluate_def Let_def)

section \<open>Authentication and check-in\<close>

text \<open>
  \<open>subtle.ConstantTimeCompare\<close> on the bytes of two strings: 0 at once when the
  lengths differ, otherwise the exclusive-or of each pair of bytes is accumulated
  with bitwise or and the accumulator is compared with zero by
  \<open>ConstantTimeByteEq\<close>, in 32-bit arithmetic as the Go code does.
\<close>

definition ConstantTimeByteEq :: "8 word \<Rightarrow> 8 word \<Rightarrow> int" where
  "ConstantTimeByteEq x y = uint (drop_bit 31 ((ucast (x XOR y) :: 32 word) - 1))"

definition ConstantTimeCompare :: "string \<Rightarrow> string \<Rightarrow> int" where
  "ConstantTimeCompare x y =
     (if length x \<noteq> length y then 0
      else ConstantTimeByteEq
             (foldl (\<lambda>v (a, b). v OR (of_char a XOR of_char b)) 0 (zip x y)) 0)"

lemma unat_of_char: "unat (of_char c :: 8 word) = of_char c"
proof -
  have "(of_char c :: 8 word) = of_nat (of_char c)" by (simp add: of_nat_of_char)
  then have "unat (of_char c :: 8 word) = (of_char c :: nat) mod 2 ^ 8"
    by (simp add: unat_of_nat)
  then show ?thesis by simp
qed

lemma of_char_word8_inj: "(of_char a :: 8 word) = of_char b \<longleftrightarrow> a = b"
proof
  assume "(of_char a :: 8 word) = of_char b"
  then have "unat (of_char a :: 8 word) = unat (of_char b :: 8 word)" by simp
  then show "a = b" by (simp add: unat_of_char)
qed simp

lemma ConstantTimeByteEq_zero: "ConstantTimeByteEq 0 0 = 1"
  by (simp add: ConstantTimeByteEq_def drop_bit_eq_div)

lemma ConstantTimeByteEq_nonzero:
  assumes "v \<noteq> 0"
  shows "ConstantTimeByteEq v 0 = 0"
proof -
  let ?w = "ucast v :: 32 word"
  have "unat v < 2 ^ 8" using unsigned_less [of v, where ?'a = nat] by simp
  then have u: "unat ?w = unat v" by (simp add: unsigned_ucast_eq take_bit_eq_mod)
  have "unat v < 2 ^ 8" using unsigned_less [of v, where ?'a = nat] by simp
  moreover have "0 < unat v" using assms by (simp add: unat_gt_0)
  ultimately have b: "0 < unat ?w" "unat ?w < 256" using u by simp_all
  then have "?w \<noteq> 0" by (simp add: unat_gt_0)
  then have "unat (?w - 1) = unat ?w - 1" by (rule unat_minus_one)
  with b have "unat (?w - 1) < 2 ^ 31" by simp
  then have "unat (drop_bit 31 (?w - 1)) = 0"
    by (simp only: unat_drop_bit_eq) (simp add: drop_bit_eq_div)
  then have "drop_bit 31 (?w - 1) = 0" by (simp add: unat_eq_0)
  then show ?thesis by (simp add: ConstantTimeByteEq_def)
qed

lemma fold_or_zero:
  "foldl (\<lambda>v (a, b). v OR (of_char a XOR of_char b)) (v0 :: 8 word) ps = 0
     \<longleftrightarrow> v0 = 0 \<and> (\<forall>(a, b)\<in>set ps. a = b)"
proof (induction ps arbitrary: v0)
  case Nil
  then show ?case by simp
next
  case (Cons p ps)
  obtain a b where p: "p = (a, b)" by (cases p)
  have "(of_char a XOR of_char b :: 8 word) = 0 \<longleftrightarrow> a = b"
    using of_char_word8_inj [of a b] by (metis bit.xor_left_self bit.xor_self)
  then show ?case by (simp add: Cons.IH p or_eq_0_iff)
qed

lemma ConstantTimeCompare_eq: "ConstantTimeCompare x y = (if x = y then 1 else 0)"
proof (cases "length x = length y")
  case False
  then show ?thesis by (auto simp: ConstantTimeCompare_def)
next
  case True
  let ?v = "foldl (\<lambda>v (a, b). v OR (of_char a XOR of_char b)) (0 :: 8 word) (zip x y)"
  have "?v = 0 \<longleftrightarrow> (\<forall>(a, b)\<in>set (zip x y). a = b)" by (simp add: fold_or_zero)
  also have "\<dots> \<longleftrightarrow> x = y" using True by (simp add: list_eq_iff_zip_eq)
  finally have "?v = 0 \<longleftrightarrow> x = y" .
  with True show ?thesis
    by (cases "?v = 0")
       (simp_all add: ConstantTimeCompare_def ConstantTimeByteEq_zero ConstantTimeByteEq_nonzero)
qed

text \<open>
  Of a request the handlers read the path value \<open>key\<close>, the \<open>Authorization\<close> header
  and the query parameter \<open>token\<close> (as \<open>Query().Get\<close> returns it: the empty string
  when absent). A header of a request is the list of the values sent under its
  name, empty when the header is absent; \<open>Header.Get\<close> returns the first value, and
  the empty string when there is none. Of the response the handlers set the status
  code and the body.
\<close>

record request =
  req_key :: string
  req_authorization :: "string list"
  req_token :: string

definition Header_Get :: "string list \<Rightarrow> string" where
  "Header_Get values = (case values of [] \<Rightarrow> [] | v # rest \<Rightarrow> v)"

record response =
  resp_status :: nat
  resp_body :: string

definition http_Error :: "string \<Rightarrow> nat \<Rightarrow> response" where
  "http_Error msg code = \<lparr>resp_status = code, resp_body = msg @ [CHR 0x0A]\<rparr>"

definition CutPrefix :: "string \<Rightarrow> string \<Rightarrow> string \<times> bool" where
  "CutPrefix s pre =
     (if take (length pre) s = pre then (drop (length pre) s, True) else (s, False))"

text \<open>
  The global state. A Go map is either \<open>nil\<close> (\<open>None\<close>: reads yield the zero value,
  an assignment panics) or a table with at most one entry for each key, held here
  as an association list that is only changed through \<open>AList.update\<close>. The program
  starts with \<open>make(map[string]time.Time)\<close>, the empty table \<open>Some []\<close>.
\<close>

type_synonym registry = "(string \<times> Time) list option"

record server =
  authToken :: string
  filename :: string
  checkins :: registry

definition map_index :: "registry \<Rightarrow> string \<Rightarrow> Time" where
  "map_index m k =
     (case m of
        None \<Rightarrow> zeroTime
      | Some kvs \<Rightarrow> (case map_of kvs k of None \<Rightarrow> zeroTime | Some t \<Rightarrow> t))"

definition map_assign :: "registry \<Rightarrow> string \<Rightarrow> Time \<Rightarrow> registry outcome" where
  "map_assign m k t =
     (case m of None \<Rightarrow> Panic | Some kvs \<Rightarrow> Return (Some (AList.update k t kvs)))"

definition UTC :: "Time \<Rightarrow> Time" where
  "UTC t = t\<lparr>zone := 0\<rparr>"

type_synonym handled = "(response \<times> server \<times> bool) outcome"

definition authMiddleware :: "(request \<Rightarrow> server \<Rightarrow> handled) \<Rightarrow> request \<Rightarrow> server \<Rightarrow> handled" where
  "authMiddleware handler r srv =
     (let token = Header_Get (req_authorization r) in
      if token = [] then
        (let token = req_token r in
         if ConstantTimeCompare (authToken srv) token \<noteq> 1
         then Return (http_Error ''Unauthorized'' 401, srv, False)
         else handler r srv)
      else
        (case CutPrefix token ''Bearer '' of
           (token, ok) \<Rightarrow>
             if \<not> ok then Return (http_Error ''Invalid Authorization format'' 400, srv, False)
             else if ConstantTimeCompare (authToken srv) token \<noteq> 1
             then Return (http_Error ''Unauthorized'' 401, srv, False)
             else handler r srv))"

datatype auth_result = Accepted | BadlyFormedHeader | Rejected

definition authenticate :: "string \<Rightarrow> request \<Rightarrow> auth_result" where
  "authenticate secret r =
     (let token = Header_Get (req_authorization r) in
      if token = [] then
        (let token = req_token r in
         if ConstantTimeCompare secret token \<noteq> 1 then Rejected else Accepted)
      else
        (case CutPrefix token ''Bearer '' of
           (token, ok) \<Rightarrow>
             if \<not> ok then BadlyFormedHeader
             else if ConstantTimeCompare secret token \<noteq> 1 then Rejected
             else Accepted))"

definition checkinHandler :: "Time \<Rightarrow> request \<Rightarrow> server \<Rightarrow> handled" where
  "checkinHandler now r srv =
     (let k = req_key r in
      case parse k of
        Panic \<Rightarrow> Panic
      | Return (d, ok) \<Rightarrow>
          if \<not> ok then Return (http_Error ''Invalid key'' 400, srv, False)
          else
            (case map_assign (checkins srv) k (UTC now) of
               Panic \<Rightarrow> Panic
             | Return m \<Rightarrow>
                 Return (\<lparr>resp_status = 204, resp_body = []\<rparr>, srv\<lparr>checkins := m\<rparr>, True)))"

text \<open>
  A sequence of check-in requests, each with the clock reading at which it is
  served. A handler that panics is recovered by \<open>net/http\<close>; both panics of
  \<open>checkinHandler\<close> happen before the map is changed, so the state is then as it was.
\<close>

fun run_checkins :: "(Time \<times> request) list \<Rightarrow> server \<Rightarrow> server" where
  "run_checkins [] srv = srv"
| "run_checkins ((now, r) # rest) srv =
     (case authMiddleware (checkinHandler now) r srv of
        Panic \<Rightarrow> run_checkins rest srv
      | Return (resp, srv', spawned) \<Rightarrow> run_checkins rest srv')"

text \<open>
  Examples: two instants two hours apart (2025-11-29 08:00:00 UTC and 10:00:00
  UTC) and a server as it starts, with an empty registry.
\<close>

definition t0 :: Time where
  "t0 = \<lparr>sec = 63900000000, nsec = 0, zone = 0\<rparr>"

definition t0_plus_2h :: Time where
  "t0_plus_2h = \<lparr>sec = 63900007200, nsec = 0, zone = 0\<rparr>"

definition empty_server :: server where
  "empty_server = \<lparr>authToken = ''SECRET'', filename = ''watchdogd.json'', checkins = Some []\<rparr>"

lemma authMiddleware_authenticate:
  "authMiddleware handler r srv =
     (case authenticate (authToken srv) r of
        Accepted \<Rightarrow> handler r srv
      | BadlyFormedHeader \<Rightarrow> Return (http_Error ''Invalid Authorization format'' 400, srv, False)
      | Rejected \<Rightarrow> Return (http_Error ''Unauthorized'' 401, srv, False))"
  by (simp add: authMiddleware_def authenticate_def Let_def split: prod.splits)

lemma CutPrefix_True: "CutPrefix s pre = (t, True) \<longleftrightarrow> s = pre @ t"
  by (auto simp: CutPrefix_def) (metis append_take_drop_id)

lemma CutPrefix_False: "snd (CutPrefix s pre) = False \<longleftrightarrow> \<not> (\<exists>t. s = pre @ t)"
  by (auto simp: CutPrefix_def) (metis append_take_drop_id)

lemma authenticate_cases:
  "authenticate secret r =
     (if Header_Get (req_authorization r) = [] then
        (if req_token r = secret then Accepted else Rejected)
      else if \<exists>t. Header_Get (req_authorization r) = ''Bearer '' @ t then
        (if Header_Get (req_authorization r) = ''Bearer '' @ secret then Accepted else Rejected)
      else BadlyFormedHeader)"
proof -
  let ?h = "Header_Get (req_authorization r)"
  obtain t ok where c: "CutPrefix ?h ''Bearer '' = (t, ok)"
    by (cases "CutPrefix ?h ''Bearer ''")
  show ?thesis
  proof (cases ok)
    case True
    with c have "?h = ''Bearer '' @ t" by (simp add: CutPrefix_True)
    with c True show ?thesis
      by (auto simp: authenticate_def Let_def ConstantTimeCompare_eq)
  next
    case False
    with c have "\<not> (\<exists>t. ?h = ''Bearer '' @ t)"
      using CutPrefix_False [of ?h "''Bearer ''"] by simp
    with c False show ?thesis
      by (auto simp: authenticate_def Let_def ConstantTimeCompare_eq)
  qed
qed

text \<open>
  Claim C6, as amended. \<open>authMiddleware\<close> takes as credential the query parameter
  \<open>token\<close> when the \<open>Authorization\<close> header is absent or its value is empty, and
  otherwise the value of the header with the prefix \<open>Bearer \<close> removed. It runs the
  handler iff the credential equals the configured secret. A header with a value
  that is not empty and does not start with \<open>Bearer \<close> is the separate failure
  \<open>400 Invalid Authorization format\<close>; every other mismatch is answered
  \<open>401 Unauthorized\<close>, in particular a missing credential when a secret is
  configured. In neither failure is the handler run or the state changed. When the
  header has a value that is not empty, the query parameter does not influence
  the decision.
\<close>

theorem authMiddleware_credentials:
  "authMiddleware handler r srv =
     (if Header_Get (req_authorization r) = [] then
        (if req_token r = authToken srv then handler r srv
         else Return (http_Error ''Unauthorized'' 401, srv, False))
      else if \<exists>t. Header_Get (req_authorization r) = ''Bearer '' @ t then
        (if Header_Get (req_authorization r) = ''Bearer '' @ authToken srv then handler r srv
         else Return (http_Error ''Unauthorized'' 401, srv, False))
      else Return (http_Error ''Invalid Authorization format'' 400, srv, False))
   \<and> (Header_Get (req_authorization r) = []
        \<longleftrightarrow> req_authorization r = [] \<or> hd (req_authorization r) = [])
   \<and> (authToken srv \<noteq> [] \<and> Header_Get (req_authorization r) = [] \<and> req_token r = []
        \<longrightarrow> authMiddleware handler r srv = Return (http_Error ''Unauthorized'' 401, srv, False))
   \<and> (Header_Get (req_authorization r) \<noteq> []
        \<longrightarrow> authMiddleware handler (r\<lparr>req_token := q\<rparr>) srv
            = authMiddleware (\<lambda>x. handler (r\<lparr>req_token := q\<rparr>)) r srv)"
proof -
  have a: "authMiddleware handler r srv =
     (if Header_Get (req_authorization r) = [] then
        (if req_token r = authToken srv then handler r srv
         else Return (http_Error ''Unauthorized'' 401, srv, False))
      else if \<exists>t. Header_Get (req_authorization r) = ''Bearer '' @ t then
        (if Header_Get (req_authorization r) = ''Bearer '' @ authToken srv then handler r srv
         else Return (http_Error ''Unauthorized'' 401, srv, False))
      else Return (http_Error ''Invalid Authorization format'' 400, srv, False))"
    for handler r
    by (simp add: authMiddleware_authenticate authenticate_cases)
  have b: "Header_Get (req_authorization r) = []
        \<longleftrightarrow> req_authorization r = [] \<or> hd (req_authorization r) = []"
    by (cases "req_authorization r") (simp_all add: Header_Get_def)
  have c: "authToken srv \<noteq> [] \<and> Header_Get (req_authorization r) = [] \<and> req_token r = []
        \<longrightarrow> authMiddleware handler r srv = Return (http_Error ''Unauthorized'' 401, srv, False)"
    by (auto simp: a)
  have d: "Header_Get (req_authorization r) \<noteq> []
        \<longrightarrow> authMiddleware handler (r\<lparr>req_token := q\<rparr>) srv
            = authMiddleware (\<lambda>x. handler (r\<lparr>req_token := q\<rparr>)) r srv"
    by (simp add: a)
  from a b c d show ?thesis by blast
qed

theorem authMiddleware_credentials_witness:
  "authToken empty_server \<noteq> []
   \<and> authMiddleware (checkinHandler t0)
       \<lparr>req_key = ''backup-24h'', req_authorization = [], req_token = []\<rparr> empty_server
     = Return (http_Error ''Unauthorized'' 401, empty_server, False)
   \<and> Header_Get [''Bearer SECRET''] \<noteq> []
   \<and> authMiddleware (checkinHandler t0)
       \<lparr>req_key = ''backup-24h'', req_authorization = [''Bearer SECRET''], req_token = ''x''\<rparr>
       empty_server
     = authMiddleware (\<lambda>x. checkinHandler t0
           \<lparr>req_key = ''backup-24h'', req_authorization = [''Bearer SECRET''], req_token = ''x''\<rparr>)
         \<lparr>req_key = ''backup-24h'', req_authorization = [''Bearer SECRET''], req_token = []\<rparr>
         empty_server"
proof -
  have a: "authToken empty_server \<noteq> []" by (simp add: empty_server_def)
  have b: "Header_Get [''Bearer SECRET''] \<noteq> []" by (simp add: Header_Get_def)
  from authMiddleware_credentials [of "checkinHandler t0"
      "\<lparr>req_key = ''backup-24h'', req_authorization = [], req_token = []\<rparr>" empty_server "[]"]
    authMiddleware_credentials [of "checkinHandler t0"
      "\<lparr>req_key = ''backup-24h'', req_authorization = [''Bearer SECRET''], req_token = []\<rparr>"
      empty_server "''x''"]
    a b
  show ?thesis by (simp add: Header_Get_def)
qed

text \<open>
  Claim C6 as stated fails: a request whose \<open>Authorization\<close> header is present with
  an empty value, and so lacks the prefix, is not answered as a badly formed header;
  the query parameter is consulted although a header is present, and with the
  secret in it the check-in is accepted.
\<close>

theorem authMiddleware_empty_header_counterexample:
  "authMiddleware (checkinHandler t0)
       \<lparr>req_key = ''backup-24h'', req_authorization = [[]], req_token = ''SECRET''\<rparr>
       empty_server
     = Return (\<lparr>resp_status = 204, resp_body = []\<rparr>,
               empty_server\<lparr>checkins := Some [(''backup-24h'', t0)]\<rparr>, True)"
  by code_simp

text \<open>
  \<open>parse_ok\<close>: \<open>parse\<close> returns with \<open>ok = true\<close>. \<open>keys_valid\<close>: the map is not
  \<open>nil\<close> and each of its keys is matched by \<open>keyRe\<close> and accepted by \<open>parse\<close>.
\<close>

definition parse_ok :: "string \<Rightarrow> bool" where
  "parse_ok k = (case parse k of Panic \<Rightarrow> False | Return (d, ok) \<Rightarrow> ok)"

definition keys_valid :: "registry \<Rightarrow> bool" where
  "keys_valid m =
     (case m of None \<Rightarrow> False | Some kvs \<Rightarrow> list_all (\<lambda>(k, t). key_shape k \<and> parse_ok k) kvs)"

text \<open>
  Claim C7, as amended. For a key that is not of the form that \<open>keyRe\<close> matches (a
  label, a \<open>-\<close>, one or more digits that denote any natural number, zero included,
  and a unit letter), \<open>checkinHandler\<close> answers \<open>400 Invalid key\<close>, hands back the
  server state as it received it (no entry is created or updated) and spawns no
  \<open>save\<close>; the same holds behind \<open>authMiddleware\<close>, whatever the credentials.
\<close>

theorem checkin_invalid_key:
  "\<not> (\<exists>label ds u. req_key r = label @ ''-'' @ ds @ [u] \<and> key_parts label ds u) \<Longrightarrow>
     checkinHandler now r srv = Return (http_Error ''Invalid key'' 400, srv, False)
     \<and> (\<exists>resp. authMiddleware (checkinHandler now) r srv = Return (resp, srv, False))"
proof -
  assume "\<not> (\<exists>label ds u. req_key r = label @ ''-'' @ ds @ [u] \<and> key_parts label ds u)"
  then have "\<not> key_shape (req_key r)" by (simp add: key_shape_iff)
  then have p: "parse (req_key r) = Return (0, False)" by (rule parse_no_shape)
  then have c: "checkinHandler now r srv = Return (http_Error ''Invalid key'' 400, srv, False)"
    by (simp add: checkinHandler_def)
  then have "\<exists>resp. authMiddleware (checkinHandler now) r srv = Return (resp, srv, False)"
    by (cases "authenticate (authToken srv) r") (simp_all add: authMiddleware_authenticate)
  with c show ?thesis ..
qed

theorem checkin_invalid_key_witness:
  "checkinHandler \<lparr>sec = 63900000000, nsec = 0, zone = 0\<rparr>
       \<lparr>req_key = ''x'', req_authorization = [''Bearer SECRET''], req_token = []\<rparr>
       \<lparr>authToken = ''SECRET'', filename = ''db.json'', checkins = Some []\<rparr>
     = Return (http_Error ''Invalid key'' 400,
         \<lparr>authToken = ''SECRET'', filename = ''db.json'', checkins = Some []\<rparr>, False)"
proof -
  have "\<not> key_shape ''x''" by code_simp
  then have "\<not> (\<exists>label ds u. ''x'' = label @ ''-'' @ ds @ [u] \<and> key_parts label ds u)"
    by (simp add: key_shape_iff)
  then show ?thesis
    using checkin_invalid_key [of "\<lparr>req_key = ''x'', req_authorization = [''Bearer SECRET''], req_token = []\<rparr>"
      "\<lparr>sec = 63900000000, nsec = 0, zone = 0\<rparr>"
      "\<lparr>authToken = ''SECRET'', filename = ''db.json'', checkins = Some []\<rparr>"]
    by simp
qed

text \<open>
  Claim C7 as stated fails: the key \<open>a-0h\<close> is malformed in the words of the
  specification (its number is not positive), and a check-in with it is answered
  \<open>204\<close>, creates the entry and spawns a \<open>save\<close>.
\<close>

theorem checkin_zero_window_counterexample:
  "\<not> spec_valid_key ''a-0h''
   \<and> checkinHandler t0
       \<lparr>req_key = ''a-0h'', req_authorization = [''Bearer SECRET''], req_token = []\<rparr>
       empty_server
     = Return (\<lparr>resp_status = 204, resp_body = []\<rparr>,
               empty_server\<lparr>checkins := Some [(''a-0h'', t0)]\<rparr>, True)"
  by code_simp

lemma list_all_update:
  "list_all (\<lambda>(k, t). P k) kvs \<Longrightarrow> P k \<Longrightarrow> list_all (\<lambda>(k, t). P k) (AList.update k v kvs)"
  by (induction kvs) auto

lemma parse_True_valid: "parse k = Return (d, True) \<Longrightarrow> key_shape k \<and> parse_ok k"
  using parse_ok_shape [of k d] by (simp add: parse_ok_def)

lemma checkinHandler_keys_valid:
  assumes "keys_valid (checkins srv)" "checkinHandler now r srv = Return (resp, srv', spawned)"
  shows "keys_valid (checkins srv')"
proof -
  from assms(1) obtain kvs where kvs: "checkins srv = Some kvs"
    "list_all (\<lambda>(k, t). key_shape k \<and> parse_ok k) kvs"
    by (auto simp: keys_valid_def split: option.splits)
  from assms(2) obtain d ok where p: "parse (req_key r) = Return (d, ok)"
    by (cases "parse (req_key r)") (auto simp: checkinHandler_def)
  show ?thesis
  proof (cases ok)
    case False
    with p assms show ?thesis by (simp add: checkinHandler_def)
  next
    case True
    with p have "parse (req_key r) = Return (d, True)" by simp
    then have "key_shape (req_key r) \<and> parse_ok (req_key r)" by (rule parse_True_valid)
    with kvs(2) have "list_all (\<lambda>(k, t). key_shape k \<and> parse_ok k)
        (AList.update (req_key r) (UTC now) kvs)"
      by (rule list_all_update)
    with p True kvs(1) assms(2) show ?thesis
      by (auto simp: checkinHandler_def map_assign_def keys_valid_def)
  qed
qed

lemma authMiddleware_keys_valid:
  assumes "keys_valid (checkins srv)"
    "authMiddleware (checkinHandler now) r srv = Return (resp, srv', spawned)"
  shows "keys_valid (checkins srv')"
  using assms checkinHandler_keys_valid [of srv now r resp srv' spawned]
  by (cases "authenticate (authToken srv) r") (auto simp: authMiddleware_authenticate)

lemma run_checkins_keys_valid:
  "keys_valid (checkins srv) \<Longrightarrow> keys_valid (checkins (run_checkins ops srv))"
proof (induction ops arbitrary: srv)
  case Nil
  then show ?case by simp
next
  case (Cons op ops)
  obtain now r where op: "op = (now, r)" by (cases op)
  show ?case
  proof (cases "authMiddleware (checkinHandler now) r srv")
    case Panic
    with Cons op show ?thesis by simp
  next
    case (Return res)
    obtain resp srv' spawned where res: "res = (resp, srv', spawned)" by (cases res)
    with Return Cons.prems have "keys_valid (checkins srv')"
      using authMiddleware_keys_valid by blast
    from Cons.IH [OF this] Return res op show ?thesis by simp
  qed
qed



section \<open>Calendar\<close>

text \<open>
  The proleptic Gregorian calendar of Go's \<open>time\<close> package, with days counted from
  January 1 of year 1 (day 0). \<open>daysSinceEpoch\<close> and \<open>Date\<close> go from a civil date
  to the count, \<open>absDate\<close> and \<open>absClock\<close> go back. Months are numbered from 1.
\<close>

definition isLeap :: "int \<Rightarrow> bool" where
  "isLeap year = (year mod 4 = 0 \<and> (year mod 100 \<noteq> 0 \<or> year mod 400 = 0))"

definition daysBefore :: "int \<Rightarrow> int" where
  "daysBefore m =
     (if m = 0 then 0 else if m = 1 then 31 else if m = 2 then 59 else if m = 3 then 90
      else if m = 4 then 120 else if m = 5 then 151 else if m = 6 then 181
      else if m = 7 then 212 else if m = 8 then 243 else if m = 9 then 273
      else if m = 10 then 304 else if m = 11 then 334 else 365)"

definition daysIn :: "int \<Rightarrow> int \<Rightarrow> int" where
  "daysIn m year =
     (if m = 2 \<and> isLeap year then 29 else daysBefore m - daysBefore (m - 1))"

definition daysSinceEpoch :: "int \<Rightarrow> int" where
  "daysSinceEpoch year =
     (let y = year - 1;
          n400 = y div 400; y1 = y - 400 * n400;
          n100 = y1 div 100; y2 = y1 - 100 * n100;
          n4 = y2 div 4; y3 = y2 - 4 * n4
      in 146097 * n400 + 36524 * n100 + 1461 * n4 + 365 * y3)"

definition year_yday :: "int \<Rightarrow> int \<times> int" where
  "year_yday d =
     (let n400 = d div 146097; d1 = d - 146097 * n400;
          n = d1 div 36524; n100 = n - n div 4; d2 = d1 - 36524 * n100;
          n4 = d2 div 1461; d3 = d2 - 1461 * n4;
          n' = d3 div 365; n1 = n' - n' div 4; yday = d3 - 365 * n1
      in (400 * n400 + 100 * n100 + 4 * n4 + n1 + 1, yday))"

definition month_day :: "int \<Rightarrow> int \<Rightarrow> int \<times> int" where
  "month_day year yday =
     (if isLeap year \<and> yday = 31 + 29 - 1 then (2, 29)
      else
        let day = (if isLeap year \<and> yday > 31 + 29 - 1 then yday - 1 else yday);
            m = day div 31;
            end = daysBefore (m + 1);
            month = (if day \<ge> end then m + 1 else m);
            begin = (if day \<ge> end then end else daysBefore m)
        in (month + 1, day - begin + 1))"

definition absDate :: "int \<Rightarrow> int \<times> int \<times> int" where
  "absDate d =
     (case year_yday d of (year, yday) \<Rightarrow>
        (case month_day year yday of (month, day) \<Rightarrow> (year, month, day)))"

definition absClock :: "int \<Rightarrow> int \<times> int \<times> int" where
  "absClock a =
     (let s = a mod 86400; hour = s div 3600; s1 = s - hour * 3600;
          mi = s1 div 60; s2 = s1 - mi * 60
      in (hour, mi, s2))"

definition Date :: "int \<Rightarrow> int \<Rightarrow> int \<Rightarrow> int \<Rightarrow> int \<Rightarrow> int \<Rightarrow> int \<Rightarrow> Time" where
  "Date year month day hour mi s ns =
     (let d = daysSinceEpoch year + daysBefore (month - 1)
              + (if isLeap year \<and> month \<ge> 3 then 1 else 0) + (day - 1)
      in \<lparr>sec = d * 86400 + (hour * 3600 + mi * 60 + s), nsec = ns, zone = 0\<rparr>)"


lemma div_bounds: "0 < b \<Longrightarrow> b * (a div b) \<le> a \<and> a < b * (a div b) + b" for a b :: int
  using mult_div_mod_eq [of b a] pos_mod_bound [of b a] pos_mod_sign [of b a] by linarith

lemma div_unique_int: "0 < b \<Longrightarrow> b * q \<le> a \<Longrightarrow> a < b * q + b \<Longrightarrow> a div b = q" for a b q :: int
  using int_div_pos_eq [of a b q "a - b * q"] by simp


lemma small_shift: "0 \<le> n \<Longrightarrow> n \<le> 4 \<Longrightarrow> n - n div 4 = (if n = 4 then 3 else n)" for n :: int
  by presburger

lemma mod_zero_top: "0 < x \<Longrightarrow> x \<le> b \<Longrightarrow> (x mod b = 0) = (x = b)" for x b :: int
  by (cases "x = b") simp_all

lemma year_yday_correct:
  assumes "year_yday d = (year, yday)"
  shows "daysSinceEpoch year + yday = d \<and> 0 \<le> yday \<and> yday < (if isLeap year then 366 else 365)"
proof -
  define n400 where "n400 = d div 146097"
  define d1 where "d1 = d - 146097 * n400"
  define n where "n = d1 div 36524"
  define n100 where "n100 = n - n div 4"
  define d2 where "d2 = d1 - 36524 * n100"
  define n4 where "n4 = d2 div 1461"
  define d3 where "d3 = d2 - 1461 * n4"
  define n' where "n' = d3 div 365"
  define n1 where "n1 = n' - n' div 4"
  have "year_yday d = (400 * n400 + 100 * n100 + 4 * n4 + n1 + 1, d3 - 365 * n1)"
    unfolding year_yday_def Let_def n1_def n'_def d3_def n4_def d2_def n100_def n_def d1_def
      n400_def ..
  with assms have y: "year = 400 * n400 + 100 * n100 + 4 * n4 + n1 + 1"
    and yd: "yday = d3 - 365 * n1"
    by simp_all
  have b1: "0 \<le> d1" "d1 < 146097"
    using div_bounds [of 146097 d] by (simp_all add: d1_def n400_def)
  have bn: "36524 * n \<le> d1" "d1 < 36524 * n + 36524"
    using div_bounds [of 36524 d1] by (simp_all add: n_def)
  with b1 have n: "0 \<le> n" "n \<le> 4" by linarith+
  have n100: "n100 = (if n = 4 then 3 else n)"
    unfolding n100_def using n by (rule small_shift)
  have b2: "0 \<le> d2" "d2 \<le> 36524" "n100 < 3 \<longrightarrow> d2 < 36524" "0 \<le> n100" "n100 \<le> 3"
    using b1 bn n n100 unfolding d2_def by (cases "n = 4"; simp; linarith)+
  have b4: "1461 * n4 \<le> d2" "d2 < 1461 * n4 + 1461"
    using div_bounds [of 1461 d2] by (simp_all add: n4_def)
  with b2 have n4: "0 \<le> n4" "n4 \<le> 24" by linarith+
  have b3: "0 \<le> d3" "d3 < 1461" "n4 = 24 \<and> n100 < 3 \<longrightarrow> d3 < 1460"
    using b4 b2 unfolding d3_def by (simp; linarith)+
  have bn': "365 * n' \<le> d3" "d3 < 365 * n' + 365"
    using div_bounds [of 365 d3] by (simp_all add: n'_def)
  with b3 have n': "0 \<le> n'" "n' \<le> 4" by linarith+
  have n1: "n1 = (if n' = 4 then 3 else n')"
    unfolding n1_def using n' by (rule small_shift)
  have byd: "0 \<le> yday" "yday \<le> 365" "yday = 365 \<longrightarrow> d3 = 1460" "0 \<le> n1" "n1 \<le> 3"
    "yday = 365 \<longrightarrow> n1 = 3"
    using bn' b3 n' n1 unfolding yd by (cases "n' = 4"; simp; linarith)+
  \<comment> \<open>the way back\<close>
  have q400: "(year - 1) div 400 = n400"
    by (rule div_unique_int) (use y b2 n4 byd in \<open>simp; linarith\<close>)+
  have q100: "(year - 1 - 400 * n400) div 100 = n100"
    by (rule div_unique_int) (use y b2 n4 byd in \<open>simp; linarith\<close>)+
  have q4: "(year - 1 - 400 * n400 - 100 * n100) div 4 = n4"
    by (rule div_unique_int) (use y b2 n4 byd in \<open>simp; linarith\<close>)+
  have dse: "daysSinceEpoch year = 146097 * n400 + 36524 * n100 + 1461 * n4 + 365 * n1"
    unfolding daysSinceEpoch_def Let_def q400 q100 q4 using y by simp
  have sum: "daysSinceEpoch year + yday = d"
    unfolding dse yd d3_def d2_def d1_def by simp
  \<comment> \<open>leap years\<close>
  have m4: "year mod 4 = 0 \<longleftrightarrow> n1 = 3"
  proof -
    have "year = 4 * (100 * n400 + 25 * n100 + n4) + (n1 + 1)" using y by simp
    then have "year mod 4 = (n1 + 1) mod 4" by (metis mod_mult_self4)
    also have "\<dots> = 0 \<longleftrightarrow> n1 + 1 = 4" using byd by (intro mod_zero_top) auto
    finally show ?thesis by auto
  qed
  have m100: "year mod 100 = 0 \<longleftrightarrow> n1 = 3 \<and> n4 = 24"
  proof -
    have "year = 100 * (4 * n400 + n100) + (4 * n4 + n1 + 1)" using y by simp
    then have "year mod 100 = (4 * n4 + n1 + 1) mod 100" by (metis mod_mult_self4)
    also have "\<dots> = 0 \<longleftrightarrow> 4 * n4 + n1 + 1 = 100"
      using byd n4 by (intro mod_zero_top) auto
    finally show ?thesis using byd n4 by auto
  qed
  have m400: "year mod 400 = 0 \<longleftrightarrow> n1 = 3 \<and> n4 = 24 \<and> n100 = 3"
  proof -
    have "year = 400 * n400 + (100 * n100 + 4 * n4 + n1 + 1)" using y by simp
    then have "year mod 400 = (100 * n100 + 4 * n4 + n1 + 1) mod 400" by (metis mod_mult_self4)
    also have "\<dots> = 0 \<longleftrightarrow> 100 * n100 + 4 * n4 + n1 + 1 = 400"
      using byd n4 b2 by (intro mod_zero_top) auto
    finally show ?thesis using byd n4 b2 by auto
  qed
  have "yday = 365 \<longrightarrow> isLeap year"
    unfolding isLeap_def m4 m100 m400 using byd b3 b2 by auto
  with byd have "yday < (if isLeap year then 366 else 365)" by auto
  with sum byd show ?thesis by simp
qed


lemma month_day_plain:
  assumes d: "0 \<le> dd" "dd < 365"
  defines "m \<equiv> dd div 31"
  defines "month \<equiv> (if dd \<ge> daysBefore (m + 1) then m + 1 else m)"
  defines "begin \<equiv> (if dd \<ge> daysBefore (m + 1) then daysBefore (m + 1) else daysBefore m)"
  shows "0 \<le> month \<and> month \<le> 11 \<and> begin = daysBefore month
         \<and> daysBefore month \<le> dd \<and> dd < daysBefore (month + 1)"
proof -
  have bm: "31 * m \<le> dd" "dd < 31 * m + 31"
    using div_bounds [of 31 dd] by (simp_all add: m_def)
  with d have "0 \<le> m" "m \<le> 11" by linarith+
  then have "m = 0 \<or> m = 1 \<or> m = 2 \<or> m = 3 \<or> m = 4 \<or> m = 5 \<or> m = 6 \<or> m = 7
    \<or> m = 8 \<or> m = 9 \<or> m = 10 \<or> m = 11" by presburger
  then consider "m = 0" | "m = 1" | "m = 2" | "m = 3" | "m = 4" | "m = 5" | "m = 6" | "m = 7"
    | "m = 8" | "m = 9" | "m = 10" | "m = 11" by blast
  then show ?thesis
  proof cases
    case 1 with bm d show ?thesis by (simp add: month_def begin_def daysBefore_def)
  next
    case 2 with bm d show ?thesis by (simp add: month_def begin_def daysBefore_def)
  next
    case 3 with bm d show ?thesis by (simp add: month_def begin_def daysBefore_def)
  next
    case 4 with bm d show ?thesis by (simp add: month_def begin_def daysBefore_def)
  next
    case 5 with bm d show ?thesis by (simp add: month_def begin_def daysBefore_def)
  next
    case 6 with bm d show ?thesis by (simp add: month_def begin_def daysBefore_def)
  next
    case 7 with bm d show ?thesis by (simp add: month_def begin_def daysBefore_def)
  next
    case 8 with bm d show ?thesis by (simp add: month_def begin_def daysBefore_def)
  next
    case 9 with bm d show ?thesis by (simp add: month_def begin_def daysBefore_def)
  next
    case 10 with bm d show ?thesis by (simp add: month_def begin_def daysBefore_def)
  next
    case 11 with bm d show ?thesis by (simp add: month_def begin_def daysBefore_def)
  next
    case 12 with bm d show ?thesis by (simp add: month_def begin_def daysBefore_def)
  qed
qed


lemma month_cases:
  "0 \<le> m \<Longrightarrow> m \<le> 11 \<Longrightarrow>
     m = 0 \<or> m = 1 \<or> m = 2 \<or> m = 3 \<or> m = 4 \<or> m = 5 \<or> m = 6 \<or> m = 7
     \<or> m = 8 \<or> m = 9 \<or> m = 10 \<or> m = 11" for m :: int
  by presburger

lemma daysBefore_feb:
  assumes "0 \<le> m" "m \<le> 11"
  shows "(daysBefore m < 59) = (m \<le> 1) \<and> (59 < daysBefore (m + 1)) = (2 \<le> m)
         \<and> daysBefore m < daysBefore (m + 1)"
  using month_cases [OF assms] by (auto simp: daysBefore_def)

lemma month_day_correct:
  assumes yd: "0 \<le> yday" "yday < (if isLeap year then 366 else 365)"
    and md: "month_day year yday = (month, day)"
  shows "1 \<le> month \<and> month \<le> 12 \<and> 1 \<le> day \<and> day \<le> daysIn month year
         \<and> daysBefore (month - 1) + (if isLeap year \<and> month \<ge> 3 then 1 else 0) + (day - 1) = yday"
proof (cases "isLeap year \<and> yday = 59")
  case True
  with md have "month = 2" "day = 29" by (simp_all add: month_day_def)
  with True show ?thesis by (simp add: daysIn_def daysBefore_def)
next
  case False
  define dd where "dd = (if isLeap year \<and> yday > 59 then yday - 1 else yday)"
  define m where "m = dd div 31"
  define month0 where "month0 = (if dd \<ge> daysBefore (m + 1) then m + 1 else m)"
  define bg where "bg = (if dd \<ge> daysBefore (m + 1) then daysBefore (m + 1) else daysBefore m)"
  have dd: "0 \<le> dd" "dd < 365" using yd False by (auto simp: dd_def split: if_splits)
  have "month_day year yday = (month0 + 1, dd - bg + 1)"
    unfolding month_day_def Let_def dd_def m_def month0_def bg_def using False by auto
  with md have res: "month = month0 + 1" "day = dd - bg + 1" by simp_all
  from month_day_plain [OF dd]
  have p: "0 \<le> month0" "month0 \<le> 11" "bg = daysBefore month0"
    "daysBefore month0 \<le> dd" "dd < daysBefore (month0 + 1)"
    unfolding m_def month0_def bg_def by simp_all
  note feb = daysBefore_feb [OF p(1) p(2)]
  have adj: "(if isLeap year \<and> month \<ge> 3 then 1 else 0) + dd = yday"
  proof (cases "isLeap year")
    case nl: False
    then show ?thesis by (simp add: dd_def)
  next
    case leap: True
    show ?thesis
    proof (cases "yday > 59")
      case True
      then have "59 \<le> dd" using leap by (simp add: dd_def)
      with p(5) have "59 < daysBefore (month0 + 1)" by linarith
      with feb have "2 \<le> month0" by simp
      with True leap res show ?thesis by (simp add: dd_def)
    next
      case f: False
      with False leap have "yday < 59" by auto
      then have "dd < 59" using leap by (simp add: dd_def)
      with p(4) have "daysBefore month0 < 59" by linarith
      with feb have "month0 \<le> 1" by simp
      with f leap res show ?thesis by (simp add: dd_def)
    qed
  qed
  have len: "dd - bg + 1 \<le> daysIn month year"
  proof -
    have "dd - bg + 1 \<le> daysBefore (month0 + 1) - daysBefore month0" using p by linarith
    also have "\<dots> \<le> daysIn month year"
      using month_cases [OF p(1) p(2)] by (auto simp: daysIn_def res daysBefore_def)
    finally show ?thesis .
  qed
  show ?thesis using res p adj len by auto
qed

lemma absDate_correct:
  assumes "absDate d = (year, month, day)"
  shows "1 \<le> month \<and> month \<le> 12 \<and> 1 \<le> day \<and> day \<le> daysIn month year
         \<and> daysSinceEpoch year + daysBefore (month - 1)
             + (if isLeap year \<and> month \<ge> 3 then 1 else 0) + (day - 1) = d"
proof -
  obtain yday where y: "year_yday d = (year, yday)" and m: "month_day year yday = (month, day)"
    using assms by (auto simp: absDate_def split: prod.splits)
  from year_yday_correct [OF y] month_day_correct [OF _ _ m] show ?thesis by auto
qed




section \<open>Formatting and parsing RFC 3339 timestamps\<close>

text \<open>
  \<open>appendFormatRFC3339\<close> is what both \<open>Format(time.RFC3339)\<close> (without the
  fraction of a second) and \<open>Format(time.RFC3339Nano)\<close> (with it, trailing zeros
  removed) run. \<open>appendStrictRFC3339\<close> is the variant of \<open>MarshalJSON\<close>, which
  refuses a year outside 0..9999 and a zone offset of 24 hours or more.
  \<open>parseRFC3339\<close> is the parser that \<open>UnmarshalJSON\<close> tries first.
\<close>

definition digit_of :: "int \<Rightarrow> char" where
  "digit_of d = char_of (48 + d)"

function decimal :: "int \<Rightarrow> string" where
  "decimal n = (if n < 10 then [digit_of n] else decimal (n div 10) @ [digit_of (n mod 10)])"
  by pat_completeness auto
termination
  by (relation "measure nat") auto

declare decimal.simps [simp del]

definition appendInt :: "int \<Rightarrow> nat \<Rightarrow> string" where
  "appendInt x width =
     (let ds = decimal \<bar>x\<bar>
      in (if x < 0 then ''-'' else []) @ replicate (width - length ds) CHR ''0'' @ ds)"

definition appendNano :: "int \<Rightarrow> string" where
  "appendNano ns =
     (if ns = 0 then []
      else
        let b = CHR ''.'' # appendInt ns 9;
            b' = rev (dropWhile (\<lambda>c. c = CHR ''0'') (rev b))
        in if b' \<noteq> [] \<and> last b' = CHR ''.'' then butlast b' else b')"

definition quo :: "int \<Rightarrow> int \<Rightarrow> int" where
  "quo a b = sgn a * sgn b * (\<bar>a\<bar> div \<bar>b\<bar>)"

definition appendZone :: "int \<Rightarrow> string" where
  "appendZone off =
     (if off = 0 then ''Z''
      else
        let z = quo off 60;
            sign = (if z < 0 then CHR ''-'' else CHR ''+'');
            z' = (if z < 0 then - z else z)
        in sign # appendInt (quo z' 60) 2 @ '':'' @ appendInt (z' - 60 * quo z' 60) 2)"

definition appendFormatRFC3339 :: "Time \<Rightarrow> bool \<Rightarrow> string" where
  "appendFormatRFC3339 t nanos =
     (let a = sec t + zone t in
      case absDate (a div 86400) of (year, month, day) \<Rightarrow>
      case absClock a of (hour, mi, s) \<Rightarrow>
        appendInt year 4 @ ''-'' @ appendInt month 2 @ ''-'' @ appendInt day 2 @ ''T''
        @ appendInt hour 2 @ '':'' @ appendInt mi 2 @ '':'' @ appendInt s 2
        @ (if nanos then appendNano (nsec t) else [])
        @ appendZone (zone t))"

definition num2 :: "char \<Rightarrow> char \<Rightarrow> int" where
  "num2 c0 c1 = (10 * ((of_char c0 - 48) mod 256) + (of_char c1 - 48) mod 256) mod 256"

definition appendStrictRFC3339 :: "Time \<Rightarrow> string option" where
  "appendStrictRFC3339 t =
     (let b = appendFormatRFC3339 t True in
      if b ! 4 \<noteq> CHR ''-'' then None
      else if last b \<noteq> CHR ''Z'' then
        (let c = b ! (length b - 6) in
         if digit_char c \<or> num2 (b ! (length b - 5)) (b ! (length b - 4)) \<ge> 24 then None
         else Some b)
      else Some b)"

definition parseUint :: "string \<Rightarrow> int \<Rightarrow> int \<Rightarrow> int option" where
  "parseUint s lo hi =
     (if list_all digit_char s
      then (let x = dec_val s in if x < lo \<or> hi < x then None else Some x)
      else None)"

definition slice :: "string \<Rightarrow> nat \<Rightarrow> nat \<Rightarrow> string" where
  "slice s i j = take (j - i) (drop i s)"

definition parseNanoseconds :: "string \<Rightarrow> nat \<Rightarrow> int" where
  "parseNanoseconds v nbytes =
     (let v' = (if nbytes > 10 then take 10 v else v);
          n' = (if nbytes > 10 then 10 else nbytes)
      in dec_val (slice v' 1 n') * 10 ^ (10 - n'))"

definition parseZone :: "string \<Rightarrow> Time \<Rightarrow> Time option" where
  "parseZone s t =
     (if length s = 1 \<and> s ! 0 = CHR ''Z'' then Some t
      else if length s \<noteq> 6 then None
      else
        case parseUint (slice s 1 3) 0 23 of
          None \<Rightarrow> None
        | Some hr \<Rightarrow>
            (case parseUint (slice s 4 6) 0 59 of
               None \<Rightarrow> None
             | Some mm \<Rightarrow>
                 if \<not> ((s ! 0 = CHR ''-'' \<or> s ! 0 = CHR ''+'') \<and> s ! 3 = CHR '':'') then None
                 else
                   let zoneOffset = (hr * 60 + mm) * 60 * (if s ! 0 = CHR ''-'' then - 1 else 1)
                   in Some (t\<lparr>sec := sec t - zoneOffset, zone := zoneOffset\<rparr>)))"

definition parseDateTime :: "string \<Rightarrow> (int \<times> int \<times> int \<times> int \<times> int \<times> int) option" where
  "parseDateTime s =
     (case parseUint (slice s 0 4) 0 9999 of None \<Rightarrow> None | Some year \<Rightarrow>
      case parseUint (slice s 5 7) 1 12 of None \<Rightarrow> None | Some month \<Rightarrow>
      case parseUint (slice s 8 10) 1 (daysIn month year) of None \<Rightarrow> None | Some day \<Rightarrow>
      case parseUint (slice s 11 13) 0 23 of None \<Rightarrow> None | Some hour \<Rightarrow>
      case parseUint (slice s 14 16) 0 59 of None \<Rightarrow> None | Some mi \<Rightarrow>
      case parseUint (slice s 17 19) 0 59 of None \<Rightarrow> None | Some sc \<Rightarrow>
        if s ! 4 = CHR ''-'' \<and> s ! 7 = CHR ''-'' \<and> s ! 10 = CHR ''T''
           \<and> s ! 13 = CHR '':'' \<and> s ! 16 = CHR '':''
        then Some (year, month, day, hour, mi, sc) else None)"

definition parseRFC3339 :: "string \<Rightarrow> Time option" where
  "parseRFC3339 s =
     (if length s < 19 then None
      else
        case parseDateTime s of
          None \<Rightarrow> None
        | Some (year, month, day, hour, mi, sc) \<Rightarrow>
            let r = drop 19 s;
                frac = (length r \<ge> 2 \<and> r ! 0 = CHR ''.'' \<and> digit_char (r ! 1));
                n = (if frac then 1 + length (takeWhile digit_char (drop 1 r)) else 0);
                ns = (if frac then parseNanoseconds r n else 0);
                r' = drop n r
            in parseZone r' (Date year month day hour mi sc ns))"


lemma of_char_digit_of: "0 \<le> d \<Longrightarrow> d \<le> 9 \<Longrightarrow> of_char (digit_of d) = 48 + d"
proof -
  assume "0 \<le> d" "d \<le> 9"
  then have "(48 + d) mod 256 = 48 + d" by simp
  then show ?thesis by (simp add: digit_of_def)
qed

lemma digit_char_digit_of: "0 \<le> d \<Longrightarrow> d \<le> 9 \<Longrightarrow> digit_char (digit_of d)"
  by (simp add: digit_char_def in_range_def of_char_digit_of)

lemma digit_of_0: "digit_of 0 = CHR ''0''"
  by (simp add: digit_of_def char_of_def)

lemma dec_from_append: "dec_from x (xs @ ys) = dec_from (dec_from x xs) ys"
  by (simp add: dec_from_def)

lemma dec_val_snoc: "dec_val (xs @ [c]) = dec_val xs * 10 + (of_char c - 48)"
  by (simp add: dec_val_def dec_from_append)

lemma decimal_props:
  "0 \<le> n \<Longrightarrow> list_all digit_char (decimal n) \<and> dec_val (decimal n) = n \<and> decimal n \<noteq> []"
proof (induction n rule: decimal.induct)
  case (1 n)
  show ?case
  proof (cases "n < 10")
    case True
    with "1.prems" show ?thesis
      by (subst (1 2 3) decimal.simps)
         (simp add: digit_char_digit_of dec_val_def of_char_digit_of)
  next
    case False
    then have "0 \<le> n div 10" by simp
    with "1.IH" False have ih: "list_all digit_char (decimal (n div 10))"
      "dec_val (decimal (n div 10)) = n div 10" by simp_all
    have m: "0 \<le> n mod 10" "n mod 10 \<le> 9" by simp_all
    show ?thesis
      using False ih m
      by (subst (1 2 3) decimal.simps)
         (simp add: digit_char_digit_of dec_val_snoc of_char_digit_of)
  qed
qed

lemma decimal_length: "0 \<le> n \<Longrightarrow> n < 10 ^ k \<Longrightarrow> 0 < k \<Longrightarrow> length (decimal n) \<le> k"
proof (induction k arbitrary: n)
  case 0
  then show ?case by simp
next
  case (Suc k)
  show ?case
  proof (cases "n < 10")
    case True
    then show ?thesis by (subst decimal.simps) simp
  next
    case False
    with Suc.prems have k: "0 < k" by (cases k) auto
    from Suc.prems have "n div 10 < 10 ^ k" by simp
    moreover have "0 \<le> n div 10" using Suc.prems by simp
    ultimately have "length (decimal (n div 10)) \<le> k" using Suc.IH k by simp
    with False show ?thesis by (subst decimal.simps) simp
  qed
qed

lemma dec_from_zeros: "dec_from 0 (replicate k CHR ''0'') = 0"
  by (induction k) simp_all

lemma dec_val_pad: "dec_val (replicate k CHR ''0'' @ ds) = dec_val ds"
  by (simp add: dec_val_def dec_from_append dec_from_zeros)

lemma digit_char_0: "digit_char CHR ''0''"
  by (simp add: digit_char_def in_range_def)

lemma appendInt_props:
  assumes "0 \<le> x" "x < 10 ^ w" "0 < w"
  shows "length (appendInt x w) = w \<and> list_all digit_char (appendInt x w)
         \<and> dec_val (appendInt x w) = x"
proof -
  from assms(1) have a: "\<bar>x\<bar> = x" by simp
  note p = decimal_props [OF assms(1)]
  from decimal_length [OF assms] have l: "length (decimal x) \<le> w" .
  show ?thesis
    using p l assms(1) by (auto simp: appendInt_def Let_def a dec_val_pad digit_char_0 list_all_iff)
qed

lemma parseUint_appendInt:
  assumes "0 \<le> x" "x < 10 ^ w" "0 < w" "lo \<le> x" "x \<le> hi"
  shows "parseUint (appendInt x w) lo hi = Some x"
  using appendInt_props [OF assms(1-3)] assms(4,5) by (simp add: parseUint_def)


lemma parseDateTime_fields:
  assumes len: "length Y = 4" "length M = 2" "length D = 2" "length H = 2" "length MI = 2"
      "length S = 2"
    and p: "parseUint Y 0 9999 = Some year" "parseUint M 1 12 = Some month"
      "parseUint D 1 (daysIn month year) = Some day" "parseUint H 0 23 = Some hour"
      "parseUint MI 0 59 = Some mi" "parseUint S 0 59 = Some sc"
  shows "parseDateTime (Y @ ''-'' @ M @ ''-'' @ D @ ''T'' @ H @ '':'' @ MI @ '':'' @ S @ rest)
           = Some (year, month, day, hour, mi, sc)"
    and "drop 19 (Y @ ''-'' @ M @ ''-'' @ D @ ''T'' @ H @ '':'' @ MI @ '':'' @ S @ rest) = rest"
    and "length (Y @ ''-'' @ M @ ''-'' @ D @ ''T'' @ H @ '':'' @ MI @ '':'' @ S @ rest)
           = 19 + length rest"
  using len p by (simp_all add: parseDateTime_def slice_def nth_append)

lemma absClock_correct:
  assumes "absClock a = (hour, mi, sc)"
  shows "0 \<le> hour \<and> hour \<le> 23 \<and> 0 \<le> mi \<and> mi \<le> 59 \<and> 0 \<le> sc \<and> sc \<le> 59
         \<and> (a div 86400) * 86400 + (hour * 3600 + mi * 60 + sc) = a"
proof -
  define s0 where "s0 = a mod 86400"
  define s1 where "s1 = s0 - (s0 div 3600) * 3600"
  have "absClock a = (s0 div 3600, s1 div 60, s1 - (s1 div 60) * 60)"
    unfolding absClock_def Let_def s1_def s0_def ..
  with assms have r: "hour = s0 div 3600" "mi = s1 div 60" "sc = s1 - mi * 60"
    by simp_all
  have b0: "0 \<le> s0" "s0 < 86400" by (simp_all add: s0_def)
  have bh: "3600 * hour \<le> s0" "s0 < 3600 * hour + 3600"
    using div_bounds [of 3600 s0] by (simp_all add: r)
  have bm: "60 * mi \<le> s1" "s1 < 60 * mi + 60"
    using div_bounds [of 60 s1] by (simp_all add: r)
  have a: "(a div 86400) * 86400 + s0 = a" by (simp add: s0_def)
  show ?thesis using b0 bh bm a r(3) unfolding s1_def r(1) [symmetric] by auto
qed


lemma parseZone_appendZone:
  assumes m: "off mod 60 = 0" and b: "\<bar>off\<bar> < 86400" and z: "zone t = 0"
  shows "parseZone (appendZone off) t = Some (t\<lparr>sec := sec t - off, zone := off\<rparr>)"
proof (cases "off = 0")
  case True
  with z show ?thesis by (simp add: appendZone_def parseZone_def)
next
  case False
  define zq where "zq = \<bar>off\<bar> div 60"
  define hh where "hh = zq div 60"
  define mm where "mm = zq - 60 * hh"
  have ao: "\<bar>off\<bar> = zq * 60" using m by (auto simp: zq_def abs_if)
  with False b have zq: "1 \<le> zq" "zq < 1440" by auto
  have q: "quo off 60 = sgn off * zq" by (simp add: quo_def zq_def)
  have neg: "(quo off 60 < 0) = (off < 0)" using zq False by (auto simp: q sgn_if)
  have z': "(if quo off 60 < 0 then - quo off 60 else quo off 60) = zq"
    using zq False by (auto simp: q sgn_if)
  have qh: "quo zq 60 = hh" using zq by (simp add: quo_def hh_def sgn_if)
  have bh: "60 * hh \<le> zq" "zq < 60 * hh + 60"
    using div_bounds [of 60 zq] by (simp_all add: hh_def)
  with zq have h: "0 \<le> hh" "hh \<le> 23" "0 \<le> mm" "mm \<le> 59" by (auto simp: mm_def)
  have H: "length (appendInt hh 2) = 2" "parseUint (appendInt hh 2) 0 23 = Some hh"
    using appendInt_props [of hh 2] parseUint_appendInt [of hh 2 0 23] h by simp_all
  have M: "length (appendInt mm 2) = 2" "parseUint (appendInt mm 2) 0 59 = Some mm"
    using appendInt_props [of mm 2] parseUint_appendInt [of mm 2 0 59] h by simp_all
  have str: "appendZone off
      = (if off < 0 then CHR ''-'' else CHR ''+'') # appendInt hh 2 @ '':'' @ appendInt mm 2"
  proof (cases "off < 0")
    case True
    then have "quo off 60 = - zq" by (simp add: q)
    with True False zq show ?thesis by (simp add: appendZone_def Let_def qh mm_def)
  next
    case pos: False
    with False have "quo off 60 = zq" by (simp add: q)
    with pos False zq show ?thesis by (simp add: appendZone_def Let_def qh mm_def)
  qed
  have val: "(hh * 60 + mm) * 60 * (if off < 0 then - 1 else 1) = off"
    using ao by (auto simp: mm_def abs_if split: if_splits)
  show ?thesis
    unfolding str parseZone_def using H M val
    by (cases "off < 0") (simp_all add: slice_def nth_append Let_def)
qed

lemma dec_val_zeros_right: "dec_val (xs @ replicate k CHR ''0'') = dec_val xs * 10 ^ k"
proof (induction k)
  case 0
  then show ?case by simp
next
  case (Suc k)
  have "xs @ replicate (Suc k) CHR ''0'' = (xs @ replicate k CHR ''0'') @ [CHR ''0'']"
    by (simp add: replicate_append_same)
  then show ?case by (simp only: dec_val_snoc Suc.IH) simp
qed

lemma takeWhile_replicate: "takeWhile (\<lambda>c. c = a) xs = replicate (length (takeWhile (\<lambda>c. c = a) xs)) a"
  by (induction xs) auto

lemma appendNano_parse:
  assumes ns: "0 < ns" "ns < 10 ^ 9" and rz: "z \<noteq> []" "\<not> digit_char (hd z)"
  defines "r \<equiv> appendNano ns @ z"
  shows "length r \<ge> 2 \<and> r ! 0 = CHR ''.'' \<and> digit_char (r ! 1)
         \<and> parseNanoseconds r (1 + length (takeWhile digit_char (drop 1 r))) = ns
         \<and> drop (1 + length (takeWhile digit_char (drop 1 r))) r = z"
proof -
  define full where "full = appendInt ns 9"
  define zs where "zs = takeWhile (\<lambda>c. c = CHR ''0'') (rev full)"
  define ds where "ds = rev (dropWhile (\<lambda>c. c = CHR ''0'') (rev full))"
  define k where "k = length zs"
  have fp: "length full = 9" "list_all digit_char full" "dec_val full = ns"
    using appendInt_props [of ns 9] ns by (simp_all add: full_def)
  have split: "full = ds @ replicate k CHR ''0''"
  proof -
    have "rev full = zs @ rev ds" by (simp add: zs_def ds_def)
    then have "full = ds @ rev zs" by (metis rev_append rev_rev_ident)
    moreover have "zs = replicate k CHR ''0''"
      unfolding zs_def k_def by (rule takeWhile_replicate)
    ultimately show ?thesis by simp
  qed
  have dv: "dec_val ds * 10 ^ k = ns" using fp(3) dec_val_zeros_right [of ds k] split by simp
  have ne: "ds \<noteq> []"
  proof
    assume "ds = []"
    then have "dec_val ds = 0" by (simp add: dec_val_def)
    with dv ns show False by simp
  qed
  have dd: "list_all digit_char ds" using fp(2) split by (metis list_all_append)
  have lk: "length ds + k = 9" using fp(1) split by (metis length_append length_replicate)
  have lastnz: "last ds \<noteq> CHR ''0''"
  proof -
    from ne have "dropWhile (\<lambda>c. c = CHR ''0'') (rev full) \<noteq> []" by (simp add: ds_def)
    then have "\<not> (hd (dropWhile (\<lambda>c. c = CHR ''0'') (rev full)) = CHR ''0'')"
      by (rule hd_dropWhile)
    then show ?thesis using ne by (simp add: ds_def last_rev)
  qed
  have nano: "appendNano ns = CHR ''.'' # ds"
  proof -
    have ex: "last ds \<in> set (rev full)" using ne split by (metis last_in_set set_rev Un_iff set_append)
    have "dropWhile (\<lambda>c. c = CHR ''0'') (rev full @ [CHR ''.''])
            = dropWhile (\<lambda>c. c = CHR ''0'') (rev full) @ [CHR ''.'']"
      using ex lastnz by (intro dropWhile_append1) auto
    then have b': "rev (dropWhile (\<lambda>c. c = CHR ''0'') (rev (CHR ''.'' # full))) = CHR ''.'' # ds"
      by (simp add: ds_def)
    have "digit_char (last ds)" using ne dd by (simp add: list_all_iff)
    moreover have "\<not> digit_char CHR ''.''" by (simp add: digit_char_def in_range_def)
    ultimately have "last (CHR ''.'' # ds) \<noteq> CHR ''.''" using ne by auto
    with ns b' show ?thesis by (simp add: appendNano_def Let_def full_def)
  qed
  have r: "r = CHR ''.'' # ds @ z" by (simp add: r_def nano)
  have tw: "takeWhile digit_char (ds @ z) = ds"
  proof -
    have "takeWhile digit_char (ds @ z) = ds @ takeWhile digit_char z"
      using dd by (intro takeWhile_append2) (auto simp: list_all_iff)
    moreover have "takeWhile digit_char z = []" using rz by (cases z) auto
    ultimately show ?thesis by simp
  qed
  have l: "length ds \<le> 9" "1 \<le> length ds" using lk ne by (auto simp: Suc_le_eq)
  have pn: "parseNanoseconds r (1 + length ds) = ns"
  proof -
    have "slice r 1 (1 + length ds) = ds" by (simp add: slice_def r)
    moreover have "10 - (1 + length ds) = k" using lk by simp
    ultimately show ?thesis using l dv by (simp add: parseNanoseconds_def Let_def)
  qed
  have d1: "digit_char (r ! 1)" using ne dd by (cases ds) (auto simp: r)
  show ?thesis using pn d1 l by (simp add: r tw)
qed


definition rfc3339_ok :: "Time \<Rightarrow> bool" where
  "rfc3339_ok t =
     (0 \<le> nsec t \<and> nsec t < 10 ^ 9 \<and> zone t mod 60 = 0 \<and> \<bar>zone t\<bar> < 86400
      \<and> (case absDate ((sec t + zone t) div 86400) of
            (year, month, day) \<Rightarrow> 0 \<le> year \<and> year \<le> 9999))"

lemma daysIn_le: "1 \<le> m \<Longrightarrow> m \<le> 12 \<Longrightarrow> daysIn m year \<le> 31"
  using month_cases [of "m - 1"] by (auto simp: daysIn_def daysBefore_def)

lemma appendZone_head: "appendZone off \<noteq> [] \<and> \<not> digit_char (hd (appendZone off))
    \<and> hd (appendZone off) \<noteq> CHR ''.''"
  by (auto simp: appendZone_def Let_def digit_char_def in_range_def)

lemma format_shape:
  assumes ok: "rfc3339_ok t"
    and ad: "absDate ((sec t + zone t) div 86400) = (year, month, day)"
    and ac: "absClock (sec t + zone t) = (hour, mi, sc)"
  shows "appendFormatRFC3339 t nanos =
           appendInt year 4 @ ''-'' @ appendInt month 2 @ ''-'' @ appendInt day 2 @ ''T''
           @ appendInt hour 2 @ '':'' @ appendInt mi 2 @ '':'' @ appendInt sc 2
           @ ((if nanos then appendNano (nsec t) else []) @ appendZone (zone t))"
  by (simp add: appendFormatRFC3339_def Let_def ad ac)

lemma parseRFC3339_format:
  assumes ok: "rfc3339_ok t"
  shows "parseRFC3339 (appendFormatRFC3339 t True) = Some t"
proof -
  define a where "a = sec t + zone t"
  obtain year month day where ad: "absDate (a div 86400) = (year, month, day)"
    by (cases "absDate (a div 86400)") auto
  obtain hour mi sc where ac: "absClock a = (hour, mi, sc)"
    by (cases "absClock a") auto
  from ok ad have y: "0 \<le> year" "year \<le> 9999" and ns: "0 \<le> nsec t" "nsec t < 10 ^ 9"
    and zn: "zone t mod 60 = 0" "\<bar>zone t\<bar> < 86400"
    by (simp_all add: rfc3339_ok_def a_def)
  note cal = absDate_correct [OF ad]
  note clk = absClock_correct [OF ac]
  from cal have dle: "day \<le> 31" using daysIn_le [of month year] by linarith
  define rest where "rest = appendNano (nsec t) @ appendZone (zone t)"
  let ?Y = "appendInt year 4" and ?M = "appendInt month 2" and ?D = "appendInt day 2"
  let ?H = "appendInt hour 2" and ?MI = "appendInt mi 2" and ?S = "appendInt sc 2"
  let ?s = "?Y @ ''-'' @ ?M @ ''-'' @ ?D @ ''T'' @ ?H @ '':'' @ ?MI @ '':'' @ ?S @ rest"
  have fmt: "appendFormatRFC3339 t True = ?s"
    using format_shape [OF ok, of year month day hour mi sc True] ad ac
    by (simp add: a_def rest_def)
  have len: "length ?Y = 4" "length ?M = 2" "length ?D = 2" "length ?H = 2" "length ?MI = 2"
    "length ?S = 2"
    using appendInt_props [of year 4] appendInt_props [of month 2] appendInt_props [of day 2]
      appendInt_props [of hour 2] appendInt_props [of mi 2] appendInt_props [of sc 2]
      y cal clk dle by simp_all
  have p: "parseUint ?Y 0 9999 = Some year" "parseUint ?M 1 12 = Some month"
    "parseUint ?D 1 (daysIn month year) = Some day" "parseUint ?H 0 23 = Some hour"
    "parseUint ?MI 0 59 = Some mi" "parseUint ?S 0 59 = Some sc"
    using parseUint_appendInt [of year 4 0 9999] parseUint_appendInt [of month 2 1 12]
      parseUint_appendInt [of day 2 1 "daysIn month year"] parseUint_appendInt [of hour 2 0 23]
      parseUint_appendInt [of mi 2 0 59] parseUint_appendInt [of sc 2 0 59]
      y cal clk dle by simp_all
  note f = parseDateTime_fields [OF len p, of rest]
  have date: "Date year month day hour mi sc n = \<lparr>sec = a, nsec = n, zone = 0\<rparr>" for n
    using cal clk by (simp add: Date_def Let_def algebra_simps)
  have zone_ok: "parseZone (appendZone (zone t)) \<lparr>sec = a, nsec = nsec t, zone = 0\<rparr> = Some t"
    using parseZone_appendZone [OF zn, of "\<lparr>sec = a, nsec = nsec t, zone = 0\<rparr>"]
    by (simp add: a_def)
  note zh = appendZone_head [of "zone t"]
  have tail: "(let r = rest;
                 frac = (length r \<ge> 2 \<and> r ! 0 = CHR ''.'' \<and> digit_char (r ! 1));
                 n = (if frac then 1 + length (takeWhile digit_char (drop 1 r)) else 0);
                 ns = (if frac then parseNanoseconds r n else 0);
                 r' = drop n r
             in parseZone r' (Date year month day hour mi sc ns)) = Some t"
  proof (cases "nsec t = 0")
    case True
    then have r: "rest = appendZone (zone t)" by (simp add: rest_def appendNano_def)
    have "rest ! 0 \<noteq> CHR ''.''" using zh by (cases "appendZone (zone t)") (simp_all add: r)
    then show ?thesis using zone_ok True by (simp add: Let_def date r)
  next
    case False
    with ns have "0 < nsec t" by simp
    from appendNano_parse [OF this ns(2), of "appendZone (zone t)"] zh
    show ?thesis using zone_ok by (simp add: Let_def date rest_def)
  qed
  show ?thesis
    unfolding fmt parseRFC3339_def using f tail by simp
qed


lemma appendInt_2:
  assumes "0 \<le> x" "x < 100"
  shows "appendInt x 2 = [digit_of (x div 10), digit_of (x mod 10)]"
proof (cases "x < 10")
  case True
  then have "decimal x = [digit_of x]" by (subst decimal.simps) simp
  with True assms show ?thesis by (simp add: appendInt_def digit_of_0)
next
  case False
  with assms have "x div 10 < 10" by simp
  then have "decimal (x div 10) = [digit_of (x div 10)]" by (subst decimal.simps) simp
  with False have "decimal x = [digit_of (x div 10), digit_of (x mod 10)]"
    by (subst decimal.simps) simp
  with assms show ?thesis by (simp add: appendInt_def)
qed

lemma num2_digits:
  assumes "0 \<le> a" "a \<le> 9" "0 \<le> b" "b \<le> 9"
  shows "num2 (digit_of a) (digit_of b) = 10 * a + b"
  using assms by (simp add: num2_def of_char_digit_of)

lemma appendZone_nonzero:
  assumes m: "off mod 60 = 0" and b: "\<bar>off\<bar> < 86400" and nz: "off \<noteq> 0"
  shows "\<exists>hh mm. 0 \<le> hh \<and> hh \<le> 23 \<and> 0 \<le> mm \<and> mm \<le> 59
           \<and> appendZone off = (if off < 0 then CHR ''-'' else CHR ''+'')
                 # appendInt hh 2 @ '':'' @ appendInt mm 2"
proof -
  define zq where "zq = \<bar>off\<bar> div 60"
  define hh where "hh = zq div 60"
  define mm where "mm = zq - 60 * hh"
  have ao: "\<bar>off\<bar> = zq * 60" using m by (auto simp: zq_def abs_if)
  with nz b have zq: "1 \<le> zq" "zq < 1440" by auto
  have q: "quo off 60 = sgn off * zq" by (simp add: quo_def zq_def)
  have qh: "quo zq 60 = hh" using zq by (simp add: quo_def hh_def sgn_if)
  have bh: "60 * hh \<le> zq" "zq < 60 * hh + 60"
    using div_bounds [of 60 zq] by (simp_all add: hh_def)
  with zq have h: "0 \<le> hh" "hh \<le> 23" "0 \<le> mm" "mm \<le> 59" by (auto simp: mm_def)
  have str: "appendZone off
      = (if off < 0 then CHR ''-'' else CHR ''+'') # appendInt hh 2 @ '':'' @ appendInt mm 2"
  proof (cases "off < 0")
    case True
    then have "quo off 60 = - zq" by (simp add: q)
    with True nz zq show ?thesis by (simp add: appendZone_def Let_def qh mm_def)
  next
    case pos: False
    with nz have "quo off 60 = zq" by (simp add: q)
    with pos nz zq show ?thesis by (simp add: appendZone_def Let_def qh mm_def)
  qed
  with h show ?thesis by blast
qed

lemma appendStrictRFC3339_ok:
  assumes ok: "rfc3339_ok t"
  shows "appendStrictRFC3339 t = Some (appendFormatRFC3339 t True)"
proof -
  define a where "a = sec t + zone t"
  obtain year month day where ad: "absDate (a div 86400) = (year, month, day)"
    by (cases "absDate (a div 86400)") auto
  obtain hour mi sc where ac: "absClock a = (hour, mi, sc)"
    by (cases "absClock a") auto
  from ok ad have y: "0 \<le> year" "year \<le> 9999"
    and zn: "zone t mod 60 = 0" "\<bar>zone t\<bar> < 86400"
    by (simp_all add: rfc3339_ok_def a_def)
  define pre where "pre = ''-'' @ appendInt month 2 @ ''-'' @ appendInt day 2 @ ''T''
     @ appendInt hour 2 @ '':'' @ appendInt mi 2 @ '':'' @ appendInt sc 2 @ appendNano (nsec t)"
  have fmt: "appendFormatRFC3339 t True = appendInt year 4 @ pre @ appendZone (zone t)"
    using format_shape [OF ok, of year month day hour mi sc True] ad ac
    by (simp add: a_def pre_def)
  have ly: "length (appendInt year 4) = 4" using appendInt_props [of year 4] y by simp
  have p0: "pre ! 0 = CHR ''-''" "pre \<noteq> []" by (simp_all add: pre_def)
  have b4: "(appendInt year 4 @ pre @ appendZone (zone t)) ! 4 = CHR ''-''"
    using ly p0 by (simp add: nth_append)
  show ?thesis
  proof (cases "zone t = 0")
    case True
    then show ?thesis
      unfolding appendStrictRFC3339_def Let_def fmt using b4
      by (simp add: appendZone_def)
  next
    case False
    from appendZone_nonzero [OF zn False] obtain hh mm where
      h: "0 \<le> hh" "hh \<le> 23" "0 \<le> mm" "mm \<le> 59"
      and z: "appendZone (zone t) = (if zone t < 0 then CHR ''-'' else CHR ''+'')
                 # appendInt hh 2 @ '':'' @ appendInt mm 2" by blast
    define sg where "sg = (if zone t < 0 then CHR ''-'' else CHR ''+'')"
    have z': "appendZone (zone t) = [sg, digit_of (hh div 10), digit_of (hh mod 10), CHR '':'',
        digit_of (mm div 10), digit_of (mm mod 10)]"
      using z h by (simp add: appendInt_2 sg_def)
    have nd: "\<not> digit_char sg" by (simp add: sg_def digit_char_def in_range_def)
    have "digit_char (digit_of (mm mod 10))" by (rule digit_char_digit_of) simp_all
    moreover have "\<not> digit_char CHR ''Z''" by (simp add: digit_char_def in_range_def)
    ultimately have lastd: "digit_of (mm mod 10) \<noteq> CHR ''Z''" by auto
    have n2: "num2 (digit_of (hh div 10)) (digit_of (hh mod 10)) = hh"
      using num2_digits [of "hh div 10" "hh mod 10"] h by simp
    show ?thesis
      unfolding appendStrictRFC3339_def Let_def fmt using b4 nd lastd n2 h
      by (simp add: z' nth_append)
  qed
qed



section \<open>Persistence\<close>

text \<open>
  The database file is either absent, unreadable, or holds bytes; the bytes are
  either not JSON or the text of one JSON value, which is held as its syntax tree
  (an object as the list of its members in the order of the text).
  \<open>json.Unmarshal\<close> checks the syntax of the whole text before it stores anything; it
  then stores the members one by one and stops at the first value that is not a
  timestamp, keeping what it has stored (a decoder that goes on past such a value
  stores later members too; what was stored before it stays in either case). \<open>null\<close> for the whole value sets the map to
  \<open>nil\<close>, and for a member it leaves the zero time.

  When \<open>parseRFC3339\<close> refuses a string, \<open>UnmarshalJSON\<close> falls back on the general
  layout parser of the \<open>time\<close> package, which is taken as the parameter \<open>lenient\<close>.

  \<open>load\<close> returns the new state and the lines it logs, or \<open>None\<close> when it ends the
  process with \<open>log.Fatalf\<close>. \<open>save\<close> takes whether the write succeeds and the old
  content of the file, and returns the new content, a panic (of \<open>must\<close>) or the
  fatal exit.
\<close>

datatype json =
    JNull
  | JBool bool
  | JNumber string
  | JString string
  | JArray "json list"
  | JObject "(string \<times> json) list"

datatype file_data = NotJSON | JSON json

datatype disk_file = NoFile | ReadFault | FileData file_data

definition parseStrictRFC3339 :: "(string \<Rightarrow> Time option) \<Rightarrow> string \<Rightarrow> Time option" where
  "parseStrictRFC3339 lenient s =
     (case parseRFC3339 s of Some t \<Rightarrow> Some t | None \<Rightarrow> lenient s)"

definition Time_UnmarshalJSON :: "(string \<Rightarrow> Time option) \<Rightarrow> json \<Rightarrow> Time option" where
  "Time_UnmarshalJSON lenient v =
     (case v of
        JNull \<Rightarrow> Some zeroTime
      | JString s \<Rightarrow> parseStrictRFC3339 lenient s
      | _ \<Rightarrow> None)"

fun unmarshal_entries ::
  "(string \<Rightarrow> Time option) \<Rightarrow> (string \<times> json) list \<Rightarrow> (string \<times> Time) list
     \<Rightarrow> (string \<times> Time) list \<times> bool" where
  "unmarshal_entries lenient [] kvs = (kvs, False)"
| "unmarshal_entries lenient ((k, v) # rest) kvs =
     (case Time_UnmarshalJSON lenient v of
        None \<Rightarrow> (kvs, True)
      | Some t \<Rightarrow> unmarshal_entries lenient rest (AList.update k t kvs))"

definition Unmarshal :: "(string \<Rightarrow> Time option) \<Rightarrow> file_data \<Rightarrow> registry \<Rightarrow> registry \<times> bool" where
  "Unmarshal lenient data m =
     (case data of
        NotJSON \<Rightarrow> (m, True)
      | JSON v \<Rightarrow>
          (case v of
             JNull \<Rightarrow> (None, False)
           | JObject entries \<Rightarrow>
               (case unmarshal_entries lenient entries (case m of None \<Rightarrow> [] | Some kvs \<Rightarrow> kvs) of
                  (kvs, err) \<Rightarrow> (Some kvs, err))
           | _ \<Rightarrow> (m, True)))"

definition load :: "(string \<Rightarrow> Time option) \<Rightarrow> disk_file \<Rightarrow> server \<Rightarrow> (server \<times> string list) option" where
  "load lenient f srv =
     (case f of
        NoFile \<Rightarrow>
          Some (srv, [''no watchdogd database file found, starting with an empty database.''])
      | ReadFault \<Rightarrow> None
      | FileData data \<Rightarrow>
          (case Unmarshal lenient data (checkins srv) of
             (m, err) \<Rightarrow>
               Some (srv\<lparr>checkins := m\<rparr>,
                     if err
                     then [''corrupted watchdogd database file, starting with an empty database.'']
                     else [])))"

definition Time_MarshalJSON :: "Time \<Rightarrow> json option" where
  "Time_MarshalJSON t = map_option JString (appendStrictRFC3339 t)"

fun marshal_entries :: "(string \<times> Time) list \<Rightarrow> (string \<times> json) list option" where
  "marshal_entries [] = Some []"
| "marshal_entries ((k, t) # rest) =
     (case Time_MarshalJSON t of
        None \<Rightarrow> None
      | Some v \<Rightarrow>
          (case marshal_entries rest of None \<Rightarrow> None | Some es \<Rightarrow> Some ((k, v) # es)))"

definition MarshalIndent :: "registry \<Rightarrow> unit + file_data" where
  "MarshalIndent m =
     (case m of
        None \<Rightarrow> Inr (JSON JNull)
      | Some kvs \<Rightarrow>
          (case marshal_entries (sort_key fst kvs) of
             None \<Rightarrow> Inl ()
           | Some es \<Rightarrow> Inr (JSON (JObject es))))"

datatype save_result = Saved disk_file | SavePanic | SaveFatal

definition save :: "bool \<Rightarrow> server \<Rightarrow> disk_file \<Rightarrow> save_result" where
  "save write_ok srv f =
     (if filename srv = [] then Saved f
      else
        let m = checkins srv in
        case must (MarshalIndent m) of
          Panic \<Rightarrow> SavePanic
        | Return data \<Rightarrow> if write_ok then Saved (FileData data) else SaveFatal)"

definition registry_get :: "registry \<Rightarrow> string \<Rightarrow> Time option" where
  "registry_get m k = (case m of None \<Rightarrow> None | Some kvs \<Rightarrow> map_of kvs k)"


definition encode_entry :: "string \<times> Time \<Rightarrow> string \<times> json" where
  "encode_entry e = (fst e, JString (appendFormatRFC3339 (snd e) True))"

lemma marshal_entries_ok:
  "list_all (\<lambda>e. rfc3339_ok (snd e)) xs \<Longrightarrow> marshal_entries xs = Some (map encode_entry xs)"
proof (induction xs)
  case Nil
  then show ?case by simp
next
  case (Cons e xs)
  obtain k t where e: "e = (k, t)" by (cases e)
  with Cons.prems have "rfc3339_ok t" by simp
  then have "Time_MarshalJSON t = Some (JString (appendFormatRFC3339 t True))"
    by (simp add: Time_MarshalJSON_def appendStrictRFC3339_ok)
  with Cons e show ?case by (simp add: encode_entry_def)
qed

lemma unmarshal_entries_ok:
  "list_all (\<lambda>e. rfc3339_ok (snd e)) xs \<Longrightarrow>
     unmarshal_entries lenient (map encode_entry xs) acc
       = (foldl (\<lambda>a e. AList.update (fst e) (snd e) a) acc xs, False)"
proof (induction xs arbitrary: acc)
  case Nil
  then show ?case by simp
next
  case (Cons e xs)
  obtain k t where e: "e = (k, t)" by (cases e)
  with Cons.prems have "rfc3339_ok t" by simp
  then have "Time_UnmarshalJSON lenient (JString (appendFormatRFC3339 t True)) = Some t"
    by (simp add: Time_UnmarshalJSON_def parseStrictRFC3339_def parseRFC3339_format)
  with Cons e show ?case by (simp add: encode_entry_def)
qed

lemma map_of_foldl_update:
  "distinct (map fst xs) \<Longrightarrow>
     map_of (foldl (\<lambda>a e. AList.update (fst e) (snd e) a) acc xs) = map_of acc ++ map_of xs"
proof (induction xs arbitrary: acc)
  case Nil
  then show ?case by simp
next
  case (Cons e xs)
  obtain k t where e: "e = (k, t)" by (cases e)
  from Cons.prems e have d: "distinct (map fst xs)" and nk: "k \<notin> fst ` set xs" by auto
  from nk have "map_of xs k = None" by (simp add: map_of_eq_None_iff)
  then have "(map_of acc)(k \<mapsto> t) ++ map_of xs = map_of acc ++ map_of ((k, t) # xs)"
    by (auto simp: map_add_def fun_eq_iff split: option.splits)
  moreover have u: "map_of (AList.update k t acc) = (map_of acc)(k \<mapsto> t)"
    by (rule ext) (simp add: update_conv)
  have "map_of (foldl (\<lambda>a e. AList.update (fst e) (snd e) a) acc (e # xs))
      = map_of (AList.update k t acc) ++ map_of xs"
    using Cons.IH [OF d, of "AList.update k t acc"] e by simp
  ultimately show ?case using e by (simp only: u)
qed

lemma map_of_sort_key:
  assumes "distinct (map fst kvs)"
  shows "map_of (sort_key fst kvs) = map_of kvs" "distinct (map fst (sort_key fst kvs))"
proof -
  from assms show d: "distinct (map fst (sort_key fst kvs))"
    by (simp add: distinct_map)
  have "set (sort_key fst kvs) = set kvs" by simp
  with assms d show "map_of (sort_key fst kvs) = map_of kvs"
    by (simp add: map_of_inject_set)
qed


text \<open>
  The registries that the file format can carry: one entry for each key (as in any
  Go map), keys of ASCII characters and timestamps that RFC 3339 can express
  (\<open>rfc3339_ok\<close>). The syntax tree stands for the text of the file only for keys
  that the encoder writes as they are: \<open>json.Marshal\<close> replaces bytes that are not
  valid UTF-8 by the replacement character, which the syntax tree does not show.
  ASCII keys are written as they are (or escaped, and read back the same).
\<close>

definition ascii_key :: "string \<Rightarrow> bool" where
  "ascii_key k = list_all (\<lambda>c. (of_char c :: int) < 128) k"

definition registry_ok :: "registry \<Rightarrow> bool" where
  "registry_ok m =
     (case m of
        None \<Rightarrow> True
      | Some kvs \<Rightarrow>
          distinct (map fst kvs) \<and> list_all (\<lambda>e. rfc3339_ok (snd e)) kvs
          \<and> list_all (\<lambda>e. ascii_key (fst e)) kvs)"

text \<open>
  Claim C8, as amended. For every registry whose keys are ASCII strings and whose
  timestamps RFC 3339 can express (a year from 0 to 9999, a zone offset of whole
  minutes and less than 24 hours), with a file name configured and the write
  succeeding, \<open>save\<close> writes a file from which \<open>load\<close>, started on the empty
  registry, returns without a warning a registry with the same keys, each mapped
  to the same timestamp (to the nanosecond, with the same zone offset).
\<close>

theorem save_load_roundtrip:
  assumes fn: "filename srv \<noteq> []" and ok: "registry_ok (checkins srv)"
  shows "\<exists>data srv'. save True srv f = Saved (FileData data)
           \<and> load lenient (FileData data) (srv\<lparr>checkins := Some []\<rparr>) = Some (srv', [])
           \<and> registry_get (checkins srv') = registry_get (checkins srv)"
proof (cases "checkins srv")
  case None
  with fn have "save True srv f = Saved (FileData (JSON JNull))"
    by (simp add: save_def MarshalIndent_def must_def)
  moreover have "load lenient (FileData (JSON JNull)) (srv\<lparr>checkins := Some []\<rparr>)
      = Some (srv\<lparr>checkins := None\<rparr>, [])"
    by (simp add: load_def Unmarshal_def)
  ultimately show ?thesis using None by auto
next
  case (Some kvs)
  with ok have d: "distinct (map fst kvs)" and r: "list_all (\<lambda>e. rfc3339_ok (snd e)) kvs"
    by (simp_all add: registry_ok_def)
  let ?sorted = "sort_key fst kvs"
  let ?data = "JSON (JObject (map encode_entry ?sorted))"
  let ?kvs' = "foldl (\<lambda>a e. AList.update (fst e) (snd e) a) [] ?sorted"
  from r have rs: "list_all (\<lambda>e. rfc3339_ok (snd e)) ?sorted" by (simp add: list_all_iff)
  have s: "save True srv f = Saved (FileData ?data)"
    using fn Some marshal_entries_ok [OF rs] by (simp add: save_def MarshalIndent_def must_def)
  have l: "load lenient (FileData ?data) (srv\<lparr>checkins := Some []\<rparr>)
      = Some (srv\<lparr>checkins := Some ?kvs'\<rparr>, [])"
    using unmarshal_entries_ok [OF rs, of lenient "[]"] by (simp add: load_def Unmarshal_def)
  have "map_of ?kvs' = map_of kvs"
    using map_of_foldl_update [OF map_of_sort_key(2) [OF d], of "[]"] map_of_sort_key(1) [OF d]
    by simp
  then have "registry_get (checkins (srv\<lparr>checkins := Some ?kvs'\<rparr>)) = registry_get (checkins srv)"
    using Some by (simp add: registry_get_def fun_eq_iff)
  with s l show ?thesis by blast
qed

definition example_server :: server where
  "example_server =
     \<lparr>authToken = ''SECRET'', filename = ''watchdogd.json'',
      checkins = Some [(''db-90m'', \<lparr>sec = 63900000000, nsec = 5, zone = 0\<rparr>),
                       (''backup-24h'', \<lparr>sec = 63900000000, nsec = 0, zone = 3600\<rparr>)]\<rparr>"

theorem save_load_roundtrip_witness:
  "filename example_server \<noteq> [] \<and> registry_ok (checkins example_server)
   \<and> (\<exists>data srv'. save True example_server NoFile = Saved (FileData data)
         \<and> load (\<lambda>s. None) (FileData data) (example_server\<lparr>checkins := Some []\<rparr>)
             = Some (srv', [])
         \<and> registry_get (checkins srv') = registry_get (checkins example_server))"
proof -
  have a: "filename example_server \<noteq> []" by (simp add: example_server_def)
  have b: "registry_ok (checkins example_server)" by code_simp
  from save_load_roundtrip [OF a b, of NoFile "\<lambda>s. None"] a b show ?thesis by blast
qed


text \<open>
  Claim C8 as stated fails, for not every registry state can be saved: after a
  check-in at a clock reading in the year 10000, \<open>MarshalJSON\<close> refuses the
  timestamp and \<open>save\<close> panics on \<open>must\<close>.
\<close>

theorem save_year_10000_counterexample:
  "Date 10000 1 1 0 0 0 0 = \<lparr>sec = 315537897600, nsec = 0, zone = 0\<rparr>
   \<and> checkinHandler \<lparr>sec = 315537897600, nsec = 0, zone = 0\<rparr>
       \<lparr>req_key = ''a-1h'', req_authorization = [''Bearer SECRET''], req_token = []\<rparr>
       empty_server
     = Return (\<lparr>resp_status = 204, resp_body = []\<rparr>,
         empty_server\<lparr>checkins := Some [(''a-1h'', \<lparr>sec = 315537897600, nsec = 0, zone = 0\<rparr>)]\<rparr>,
         True)
   \<and> save True
         (empty_server\<lparr>checkins := Some [(''a-1h'', \<lparr>sec = 315537897600, nsec = 0, zone = 0\<rparr>)]\<rparr>)
         NoFile
     = SavePanic"
  by code_simp

text \<open>
  The registries that the server builds are of the kind that the amended claim is
  about: check-ins keep \<open>registry_ok\<close> as long as the clock reads a year from 0 to
  9999 (they store the reading in UTC, under a key that \<open>keyRe\<close> matches).
\<close>

lemma list_all_update_entry:
  "list_all P kvs \<Longrightarrow> P (k, v) \<Longrightarrow> list_all P (AList.update k v kvs)"
  by (induction kvs) auto

lemma key_shape_ascii: "key_shape k \<Longrightarrow> ascii_key k"
proof -
  assume "key_shape k"
  then obtain label ds u where k: "k = label @ ''-'' @ ds @ [u]" and p: "key_parts label ds u"
    using key_shape_iff by blast
  have l: "label_char c \<Longrightarrow> (of_char c :: int) < 128" for c
    by (auto simp: label_char_def in_range_def)
  have d: "digit_char c \<Longrightarrow> (of_char c :: int) < 128" for c
    by (auto simp: digit_char_def in_range_def)
  have u: "unit_char c \<Longrightarrow> (of_char c :: int) < 128" for c
    by (auto simp: unit_char_def)
  from p l d u show ?thesis
    by (auto simp: k key_parts_def ascii_key_def list_all_iff)
qed

lemma checkinHandler_registry_ok:
  assumes "registry_ok (checkins srv)" "rfc3339_ok (UTC now)"
    "checkinHandler now r srv = Return (resp, srv', spawned)"
  shows "registry_ok (checkins srv')"
proof (cases "checkins srv")
  case None
  with assms(3) have "srv' = srv"
    by (auto simp: checkinHandler_def map_assign_def Let_def
        split: outcome.splits prod.splits if_splits)
  with assms(1) show ?thesis by simp
next
  case (Some kvs)
  with assms(1) have d: "distinct (map fst kvs)" and a: "list_all (\<lambda>e. rfc3339_ok (snd e)) kvs"
    by (simp_all add: registry_ok_def)
  from Some assms(1) have c: "list_all (\<lambda>e. ascii_key (fst e)) kvs"
    by (simp add: registry_ok_def)
  from assms(3) Some have "srv' = srv
      \<or> (checkins srv' = Some (AList.update (req_key r) (UTC now) kvs)
          \<and> (\<exists>dur. parse (req_key r) = Return (dur, True)))"
    by (auto simp: checkinHandler_def map_assign_def Let_def
        split: outcome.splits prod.splits if_splits)
  then show ?thesis
  proof
    assume "srv' = srv"
    with assms(1) show ?thesis by simp
  next
    assume "checkins srv' = Some (AList.update (req_key r) (UTC now) kvs)
          \<and> (\<exists>dur. parse (req_key r) = Return (dur, True))"
    then obtain dur where u: "checkins srv' = Some (AList.update (req_key r) (UTC now) kvs)"
      and pk: "parse (req_key r) = Return (dur, True)" by blast
    from pk have "key_shape (req_key r)" by (rule parse_ok_shape)
    then have ak: "ascii_key (req_key r)" by (rule key_shape_ascii)
    have "distinct (map fst (AList.update (req_key r) (UTC now) kvs))"
      using d by (rule distinct_update)
    moreover have "list_all (\<lambda>e. rfc3339_ok (snd e)) (AList.update (req_key r) (UTC now) kvs)"
      using a assms(2) by (intro list_all_update_entry) simp_all
    moreover have "list_all (\<lambda>e. ascii_key (fst e)) (AList.update (req_key r) (UTC now) kvs)"
      using c ak by (intro list_all_update_entry) simp_all
    ultimately show ?thesis using u by (simp add: registry_ok_def)
  qed
qed

lemma run_checkins_registry_ok:
  "registry_ok (checkins srv) \<Longrightarrow> list_all (\<lambda>(now, r). rfc3339_ok (UTC now)) ops \<Longrightarrow>
     registry_ok (checkins (run_checkins ops srv))"
proof (induction ops arbitrary: srv)
  case Nil
  then show ?case by simp
next
  case (Cons op ops)
  obtain now r where op: "op = (now, r)" by (cases op)
  with Cons.prems have n: "rfc3339_ok (UTC now)"
    and rest: "list_all (\<lambda>(now, r). rfc3339_ok (UTC now)) ops" by simp_all
  show ?case
  proof (cases "authMiddleware (checkinHandler now) r srv")
    case Panic
    with Cons.IH [OF Cons.prems(1) rest] op show ?thesis by simp
  next
    case (Return res)
    obtain resp srv' spawned where res: "res = (resp, srv', spawned)" by (cases res)
    have "registry_ok (checkins srv')"
    proof (cases "authenticate (authToken srv) r")
      case Accepted
      with Return res have "checkinHandler now r srv = Return (resp, srv', spawned)"
        by (simp add: authMiddleware_authenticate)
      with Cons.prems(1) n show ?thesis by (rule checkinHandler_registry_ok)
    next
      case BadlyFormedHeader
      with Return res Cons.prems(1) show ?thesis by (simp add: authMiddleware_authenticate)
    next
      case Rejected
      with Return res Cons.prems(1) show ?thesis by (simp add: authMiddleware_authenticate)
    qed
    from Cons.IH [OF this rest] Return res op show ?thesis by simp
  qed
qed

lemma load_NoFile:
  "load lenient NoFile srv
     = Some (srv, [''no watchdogd database file found, starting with an empty database.''])"
  by (simp add: load_def)

lemma load_ReadFault: "load lenient ReadFault srv = None"
  by (simp add: load_def)

lemma load_NotJSON:
  "load lenient (FileData NotJSON) srv
     = Some (srv, [''corrupted watchdogd database file, starting with an empty database.''])"
  by (simp add: load_def Unmarshal_def)

lemma parse_example_time:
  "parseRFC3339 ''2024-01-01T00:00:00Z'' = Some \<lparr>sec = 63839664000, nsec = 0, zone = 0\<rparr>"
  by code_simp

text \<open>
  Claim C4 says that after a file that fails to deserialize \<open>load\<close> starts from an
  empty registry, as the message it logs says too. For the file whose object has
  the member \<open>a-1h\<close> with the string \<open>2024-01-01T00:00:00Z\<close> followed by the member
  \<open>b-1h\<close> with the number 5 it does not: the first member is stored before the
  second one fails, and \<open>load\<close> does not clear the map.
\<close>

theorem load_corrupt_keeps_entries:
  "load lenient
     (FileData (JSON (JObject [(''a-1h'', JString ''2024-01-01T00:00:00Z''),
                               (''b-1h'', JNumber ''5'')])))
     \<lparr>authToken = tok, filename = name, checkins = Some []\<rparr>
   = Some (\<lparr>authToken = tok, filename = name,
            checkins = Some [(''a-1h'', \<lparr>sec = 63839664000, nsec = 0, zone = 0\<rparr>)]\<rparr>,
           [''corrupted watchdogd database file, starting with an empty database.''])"
  by (simp add: load_def Unmarshal_def Time_UnmarshalJSON_def parseStrictRFC3339_def
      parse_example_time)


section \<open>Durations as floating-point numbers\<close>

text \<open>
  \<open>Duration.Hours\<close>, \<open>Minutes\<close> and \<open>Seconds\<close> return a \<open>float64\<close>. A finite
  \<open>float64\<close> is a rational number, and every operation rounds its exact result to
  the nearest number with a 53-bit significand, ties to the even significand.
  \<open>float64_round\<close> is that rounding on the rationals. The exponent range is not
  modelled: the quantities that occur here (a count of at most \<open>2^63\<close> nanoseconds,
  and quotients no smaller than \<open>1 / (3.6 * 10^12)\<close>) are far inside the normal
  range.
\<close>

definition round_half_even :: "rat \<Rightarrow> int" where
  "round_half_even x =
     (let f = \<lfloor>x\<rfloor>; r = x - of_int f
      in if r < 1 / 2 then f else if 1 / 2 < r then f + 1 else if even f then f else f + 1)"

text \<open>The number of binary digits of a positive integer.\<close>

function bit_length :: "int \<Rightarrow> nat" where
  "bit_length n = (if n \<le> 0 then 0 else Suc (bit_length (n div 2)))"
  by pat_completeness auto
termination
  by (relation "measure nat") auto

declare bit_length.simps [simp del]

definition pow2 :: "int \<Rightarrow> rat" where
  "pow2 e = (if 0 \<le> e then 2 ^ nat e else 1 / 2 ^ nat (- e))"

text \<open>\<open>float_exponent x\<close> is the \<open>e\<close> with \<open>2^e \<le> x < 2^(e+1)\<close>, for \<open>x > 0\<close>.\<close>

definition float_exponent :: "rat \<Rightarrow> int" where
  "float_exponent x =
     (case quotient_of x of
        (p, q) \<Rightarrow>
          let e0 = int (bit_length p) - int (bit_length q)
          in if pow2 e0 \<le> x then e0 else e0 - 1)"

definition float64_round :: "rat \<Rightarrow> rat" where
  "float64_round x =
     (if x = 0 then 0
      else
        let e = float_exponent \<bar>x\<bar>;
            ulp = pow2 (e - 52)
        in sgn x * of_int (round_half_even (\<bar>x\<bar> / ulp)) * ulp)"

text \<open>
  The three accessors share one shape, here \<open>Hours\<close>:
  \<open>hour := d / Hour; nsec := d % Hour; return float64(hour) + float64(nsec)/(60*60*1e9)\<close>.
  Go's integer division truncates (\<open>quo\<close>); both conversions are exact, the
  division and the addition round.
\<close>

definition float_parts :: "Duration \<Rightarrow> Duration \<Rightarrow> rat" where
  "float_parts d unit =
     (let whole = quo d unit; ns = d - whole * unit
      in float64_round (of_int whole + float64_round (of_int ns / of_int unit)))"

definition Hours :: "Duration \<Rightarrow> rat" where
  "Hours d = float_parts d Hour"

definition Minutes :: "Duration \<Rightarrow> rat" where
  "Minutes d = float_parts d Minute"

definition Seconds :: "Duration \<Rightarrow> rat" where
  "Seconds d = float_parts d Second"

text \<open>
  The verb \<open>%.0f\<close>: the decimal expansion of the number with no digit after the
  point, rounded to the nearest integer, ties to even, with a minus sign for a
  negative number.
\<close>

definition fmt_f0 :: "rat \<Rightarrow> string" where
  "fmt_f0 x = (if x < 0 then ''-'' else []) @ decimal (round_half_even \<bar>x\<bar>)"


subsection \<open>Whole numbers are rendered exactly\<close>

lemma bit_length_bounds:
  "0 < n \<Longrightarrow> 2 ^ (bit_length n - 1) \<le> n \<and> n < 2 ^ bit_length n \<and> 0 < bit_length n"
proof (induction n rule: bit_length.induct)
  case (1 n)
  show ?case
  proof (cases "n = 1")
    case True
    have "bit_length 0 = 0" by (subst bit_length.simps) simp
    then have "bit_length 1 = 1" by (subst bit_length.simps) simp
    with True show ?thesis by simp
  next
    case False
    with "1.prems" have h: "0 < n div 2" by simp
    with "1.IH" "1.prems" have ih: "2 ^ (bit_length (n div 2) - 1) \<le> n div 2"
      "n div 2 < 2 ^ bit_length (n div 2)" "0 < bit_length (n div 2)" by simp_all
    have bl: "bit_length n = Suc (bit_length (n div 2))"
      using "1.prems" by (subst bit_length.simps) simp
    from ih(3) obtain j where j: "bit_length (n div 2) = Suc j" by (cases "bit_length (n div 2)") auto
    have "2 * (n div 2) \<le> n" "n < 2 * (n div 2) + 2" by presburger+
    with ih j show ?thesis by (simp add: bl)
  qed
qed

lemma round_half_even_int: "round_half_even (of_int n) = n"
  by (simp add: round_half_even_def)

lemma float64_round_int:
  assumes "0 \<le> n" "n < 2 ^ 53"
  shows "float64_round (of_int n) = of_int n"
proof (cases "n = 0")
  case True
  then show ?thesis by (simp add: float64_round_def)
next
  case False
  with assms have pos: "0 < n" by simp
  note b = bit_length_bounds [OF pos]
  define e where "e = int (bit_length n) - 1"
  have e0: "0 \<le> e" using b by (simp add: e_def)
  have ne: "nat e = bit_length n - 1" using b by (simp add: e_def)
  have "(2::int) ^ (bit_length n - 1) < 2 ^ 53" using b assms by linarith
  then have "bit_length n - 1 < 53" by (rule power_less_imp_less_exp [rotated]) simp
  then have e52: "e \<le> 52" using b by (simp add: e_def)
  have bl1: "bit_length 1 = 1"
  proof -
    have "bit_length 0 = 0" by (subst bit_length.simps) simp
    then show ?thesis by (subst bit_length.simps) simp
  qed
  have p: "pow2 e \<le> of_int n"
  proof -
    have "(of_int (2 ^ (bit_length n - 1)) :: rat) \<le> of_int n" using b by (simp only: of_int_le_iff)
    then show ?thesis using e0 by (simp add: pow2_def ne)
  qed
  have ex: "float_exponent (of_int n) = e"
    using pos p by (simp add: float_exponent_def bl1 e_def Let_def)
  define k where "k = nat (52 - e)"
  have ulp: "pow2 (e - 52) = 1 / 2 ^ k"
    using e52 by (cases "e = 52") (simp_all add: pow2_def k_def)
  have "(of_int n :: rat) / pow2 (e - 52) = of_int (n * 2 ^ k)"
    by (simp add: ulp)
  then have r: "round_half_even ((of_int n :: rat) / pow2 (e - 52)) = n * 2 ^ k"
    by (simp only: round_half_even_int)
  have a: "\<bar>of_int n :: rat\<bar> = of_int n" "sgn (of_int n :: rat) = 1" using pos by simp_all
  have "float64_round (of_int n) = of_int (n * 2 ^ k) * pow2 (e - 52)"
    using False by (simp only: float64_round_def Let_def a ex r of_int_eq_0_iff if_False mult_1)
  also have "\<dots> = of_int n" by (simp add: ulp)
  finally show ?thesis .
qed

lemma quo_mult: "0 \<le> m \<Longrightarrow> 0 < u \<Longrightarrow> quo (m * u) u = m"
  by (cases "m = 0") (simp_all add: quo_def sgn_if mult_less_0_iff)

lemma float64_round_0: "float64_round 0 = 0"
  by (simp add: float64_round_def)

lemma float_parts_whole:
  assumes "0 \<le> m" "m < 2 ^ 53" "0 < u"
  shows "float_parts (m * u) u = of_int m"
  using assms float64_round_int [OF assms(1,2)]
  by (simp add: float_parts_def quo_mult float64_round_0)

lemma fmt_f0_int: "0 \<le> m \<Longrightarrow> fmt_f0 (of_int m) = decimal m"
  by (simp add: fmt_f0_def round_half_even_int del: of_int_abs flip: of_int_abs)

subsection \<open>The rounding error\<close>

text \<open>
  Rounding to \<open>float64\<close> moves a positive number below \<open>2^K\<close> by at most
  \<open>2^(K-54)\<close>, half a unit in the last place, and \<open>%.0f\<close> moves it by at most
  \<open>1/2\<close>. For an elapsed time from 0 to the largest \<open>Duration\<close> each printed
  field is therefore an integer within \<open>1/2 + 2^-19\<close> of the exact quotient.
\<close>

lemma pow2_powi: "pow2 e = 2 powi e"
  by (simp add: pow2_def power_int_def power_one_over inverse_eq_divide)

lemma pow2_pos: "0 < pow2 e"
  by (simp add: pow2_powi)

lemma pow2_mono: "a \<le> b \<Longrightarrow> pow2 a \<le> pow2 b"
  by (simp add: pow2_powi power_int_increasing)

lemma pow2_less_exp: "pow2 a < pow2 b \<Longrightarrow> a < b"
  using pow2_mono [of b a] by (cases "a < b") auto

lemma pow2_half: "pow2 (k - 1) = pow2 k / 2"
  by (simp add: pow2_powi power_int_diff)

lemma float_exponent_le:
  assumes "0 < x"
  shows "pow2 (float_exponent x) \<le> x"
proof -
  obtain p q where pq: "quotient_of x = (p, q)" by (cases "quotient_of x")
  then have q: "0 < q" and x: "x = of_int p / of_int q"
    using quotient_of_denom_pos quotient_of_div by blast+
  with assms have p: "0 < p" by (simp add: zero_less_divide_iff)
  note bp = bit_length_bounds [OF p]
  note bq = bit_length_bounds [OF q]
  let ?e0 = "int (bit_length p) - int (bit_length q)"
  show ?thesis
  proof (cases "pow2 ?e0 \<le> x")
    case True
    then show ?thesis by (simp add: float_exponent_def pq Let_def)
  next
    case False
    then have e: "float_exponent x = ?e0 - 1" by (simp add: float_exponent_def pq Let_def)
    have "?e0 - 1 = int (bit_length p - 1) - int (bit_length q)" using bp by simp
    then have "pow2 (?e0 - 1) = 2 powi (int (bit_length p - 1) - int (bit_length q))"
      by (simp only: pow2_powi)
    also have "\<dots> = 2 ^ (bit_length p - 1) / 2 ^ bit_length q"
      by (subst power_int_diff) simp_all
    also have "\<dots> \<le> of_int p / of_int q"
    proof (rule frac_le)
      show "(0::rat) \<le> of_int p" using p by simp
      from bp have "2 ^ (bit_length p - 1) \<le> p" by linarith
      then have "(of_int (2 ^ (bit_length p - 1)) :: rat) \<le> of_int p" by (simp only: of_int_le_iff)
      then show "(2::rat) ^ (bit_length p - 1) \<le> of_int p" by simp
      show "(0::rat) < of_int q" using q by simp
      from bq have "q \<le> 2 ^ bit_length q" by linarith
      then have "(of_int q :: rat) \<le> of_int (2 ^ bit_length q)" by (simp only: of_int_le_iff)
      then show "(of_int q :: rat) \<le> 2 ^ bit_length q" by simp
    qed
    finally show ?thesis using e x by simp
  qed
qed

lemma round_half_even_error: "\<bar>of_int (round_half_even z) - z\<bar> \<le> 1 / 2"
proof -
  have "of_int \<lfloor>z\<rfloor> \<le> z" "z < of_int \<lfloor>z\<rfloor> + 1" by linarith+
  then show ?thesis by (auto simp: round_half_even_def Let_def)
qed

lemma round_half_even_nonneg: "0 \<le> z \<Longrightarrow> 0 \<le> round_half_even z"
proof -
  assume "0 \<le> z"
  then have "0 \<le> \<lfloor>z\<rfloor>" by simp
  then show ?thesis by (auto simp: round_half_even_def Let_def)
qed

lemma float64_round_error:
  assumes "0 < x" "x < pow2 K"
  shows "\<bar>float64_round x - x\<bar> \<le> pow2 (K - 54) \<and> 0 \<le> float64_round x"
proof -
  define e where "e = float_exponent x"
  define ulp where "ulp = pow2 (e - 52)"
  define R where "R = round_half_even (x / ulp)"
  have "pow2 e \<le> x" unfolding e_def using assms(1) by (rule float_exponent_le)
  with assms(2) have "pow2 e < pow2 K" by simp
  then have "e < K" by (rule pow2_less_exp)
  then have "ulp \<le> pow2 (K - 53)" unfolding ulp_def by (intro pow2_mono) simp
  also have "\<dots> = 2 * pow2 (K - 54)" using pow2_half [of "K - 53"] by simp
  finally have u: "ulp / 2 \<le> pow2 (K - 54)" by simp
  have up: "0 < ulp" by (simp add: ulp_def pow2_pos)
  have fl: "float64_round x = of_int R * ulp"
    using assms(1) by (simp add: float64_round_def Let_def e_def ulp_def R_def)
  have "\<bar>of_int R - x / ulp\<bar> \<le> 1 / 2" unfolding R_def by (rule round_half_even_error)
  then have "\<bar>of_int R - x / ulp\<bar> * ulp \<le> 1 / 2 * ulp"
    using up by (intro mult_right_mono) simp_all
  moreover have "\<bar>of_int R - x / ulp\<bar> * ulp = \<bar>of_int R * ulp - x\<bar>"
  proof -
    have "\<bar>of_int R - x / ulp\<bar> * ulp = \<bar>(of_int R - x / ulp) * ulp\<bar>"
      using up by (simp add: abs_mult)
    also have "(of_int R - x / ulp) * ulp = of_int R * ulp - x"
      using up by (simp add: left_diff_distrib)
    finally show ?thesis .
  qed
  ultimately have "\<bar>float64_round x - x\<bar> \<le> ulp / 2" by (simp add: fl)
  with u have a: "\<bar>float64_round x - x\<bar> \<le> pow2 (K - 54)" by simp
  have "0 \<le> x / ulp" using assms(1) up by simp
  then have "0 \<le> R" unfolding R_def by (rule round_half_even_nonneg)
  with up have "0 \<le> float64_round x" by (simp add: fl)
  with a show ?thesis by simp
qed


lemma float64_round_error0:
  assumes "0 \<le> x" "x < pow2 K"
  shows "\<bar>float64_round x - x\<bar> \<le> pow2 (K - 54) \<and> 0 \<le> float64_round x"
proof (cases "x = 0")
  case True
  then show ?thesis using pow2_pos [of "K - 54"] by (simp add: float64_round_0)
next
  case False
  with assms(1) have "0 < x" by simp
  then show ?thesis using assms(2) by (rule float64_round_error)
qed

lemma quo_nonneg: "0 \<le> d \<Longrightarrow> 0 < u \<Longrightarrow> quo d u = d div u"
  by (cases "d = 0") (simp_all add: quo_def)

lemma float_parts_error:
  assumes d: "0 \<le> d" "d \<le> maxDuration" and u: "Second \<le> u"
  shows "0 \<le> float_parts d u \<and> \<bar>float_parts d u - of_int d / of_int u\<bar> \<le> 1 / 2 ^ 19"
proof -
  from u have up: "0 < u" and u9: "1000000000 \<le> u" by (simp_all add: Second_def)
  define whole where "whole = d div u"
  define ns where "ns = d mod u"
  define y :: rat where "y = of_int ns / of_int u"
  define f where "f = float64_round y"
  define s where "s = of_int whole + f"
  have fp: "float_parts d u = float64_round s"
    using d(1) up
    by (simp add: float_parts_def Let_def quo_nonneg s_def f_def y_def ns_def whole_def
        minus_div_mult_eq_mod [symmetric] algebra_simps)
  have ns: "0 \<le> ns" "ns < u" using up by (simp_all add: ns_def)
  then have y: "0 \<le> y" "y < pow2 0" using up by (simp_all add: y_def pow2_def)
  from float64_round_error0 [OF y]
  have f: "\<bar>f - y\<bar> \<le> pow2 (- 54)" "0 \<le> f" by (simp_all add: f_def)
  have w0: "0 \<le> whole" using d(1) up by (simp add: whole_def pos_imp_zdiv_nonneg_iff)
  have "whole * u \<le> d" using div_bounds [of u d] up by (simp add: whole_def mult.commute)
  moreover have "whole * 1000000000 \<le> whole * u" using w0 u9 by (intro mult_left_mono)
  ultimately have "whole * 1000000000 \<le> maxDuration" using d(2) by linarith
  then have w1: "whole \<le> 9223372036" by (simp add: maxDuration_def)
  have p54: "pow2 (- 54) = 1 / 2 ^ 54" "pow2 (- 20) = 1 / 2 ^ 20" "pow2 34 = 2 ^ 34"
    by (simp_all add: pow2_def)
  have s0: "0 \<le> s" using w0 f(2) by (simp add: s_def)
  have y1: "y < 1" using y(2) by (simp add: pow2_def)
  have e54: "(1::rat) / 2 ^ 54 \<le> 1" by simp
  have "f \<le> y + 1 / 2 ^ 54" using f(1) unfolding p54 by linarith
  with y1 e54 have "f < 2" by linarith
  moreover have "(of_int whole :: rat) \<le> of_int 9223372036" using w1 by (simp only: of_int_le_iff)
  ultimately have "s < of_int 9223372036 + 2" unfolding s_def by linarith
  also have "\<dots> \<le> pow2 34" by (simp add: p54)
  finally have s1: "s < pow2 34" .
  from float64_round_error0 [OF s0 s1]
  have r: "\<bar>float64_round s - s\<bar> \<le> pow2 (- 20)" "0 \<le> float64_round s" by simp_all
  have dq: "of_int d / of_int u = of_int whole + y"
  proof -
    have "d = whole * u + ns" by (simp add: whole_def ns_def)
    then have "(of_int d :: rat) = of_int whole * of_int u + of_int ns" by (simp flip: of_int_mult of_int_add)
    then show ?thesis using up by (simp add: y_def field_simps)
  qed
  have "\<bar>float64_round s - (of_int whole + y)\<bar> \<le> \<bar>float64_round s - s\<bar> + \<bar>f - y\<bar>"
    by (simp add: s_def)
  also have "\<dots> \<le> 1 / 2 ^ 20 + 1 / 2 ^ 54" using r(1) f(1) unfolding p54 by linarith
  also have "\<dots> \<le> 1 / 2 ^ 19" by simp
  finally show ?thesis using r(2) by (simp add: fp dq)
qed

lemma field_error:
  assumes "0 \<le> d" "d \<le> maxDuration" "Second \<le> u"
  shows "\<exists>n. fmt_f0 (float_parts d u) = decimal n \<and> 0 \<le> n
           \<and> \<bar>of_int n - of_int d / (of_int u :: rat)\<bar> \<le> 1 / 2 + 1 / 2 ^ 19"
proof -
  let ?x = "float_parts d u"
  from float_parts_error [OF assms]
  have x: "0 \<le> ?x" "\<bar>?x - of_int d / of_int u\<bar> \<le> 1 / 2 ^ 19" by simp_all
  let ?n = "round_half_even ?x"
  have a: "fmt_f0 ?x = decimal ?n" using x(1) by (simp add: fmt_f0_def)
  have b: "0 \<le> ?n" using x(1) by (rule round_half_even_nonneg)
  have "\<bar>of_int ?n - ?x\<bar> \<le> 1 / 2" by (rule round_half_even_error)
  with x(2) have "\<bar>of_int ?n - of_int d / (of_int u :: rat)\<bar> \<le> 1 / 2 + 1 / 2 ^ 19"
    by linarith
  with a b show ?thesis by blast
qed


section \<open>Status lines: \<open>printStatus\<close>, \<open>statusHandler\<close> and \<open>listHandler\<close>\<close>

text \<open>
  The handlers take the reading of the clock (\<open>time.Now()\<close>) as an argument and
  return the response, the server state and whether a \<open>save\<close> was spawned.
\<close>

definition nl :: string where
  "nl = [CHR 0x0A]"

definition printStatus :: "string \<Rightarrow> Duration \<Rightarrow> Time \<Rightarrow> Time \<Rightarrow> string" where
  "printStatus k dur lastCheckin now =
     (if IsZero lastCheckin then k @ '' NEVER ALARM'' @ nl
      else
        let since = Sub now lastCheckin;
            status = (if since > dur then ''ALARM'' else ''OKAY'')
        in k @ '' '' @ appendFormatRFC3339 lastCheckin False @ '' ''
           @ fmt_f0 (Hours since) @ ''h '' @ fmt_f0 (Minutes since) @ ''m ''
           @ fmt_f0 (Seconds since) @ ''s '' @ status @ nl)"

text \<open>The verdicts of \<open>evaluate\<close> as they are printed.\<close>

definition verdict_word :: "verdict \<Rightarrow> string" where
  "verdict_word v = (case v of OKAY \<Rightarrow> ''OKAY'' | ALARM \<Rightarrow> ''ALARM'' | NEVER \<Rightarrow> ''NEVER ALARM'')"

text \<open>
  The status line in the words of the specification: the elapsed time \<^emph>\<open>broken into\<close>
  hours, minutes and seconds components, that is the whole hours, the whole minutes
  of the remaining part of an hour, and the whole seconds of the remaining part of a
  minute.
\<close>

definition spec_status_line :: "string \<Rightarrow> Duration \<Rightarrow> Time \<Rightarrow> Time \<Rightarrow> string" where
  "spec_status_line k dur lastSeen now =
     (if IsZero lastSeen then k @ '' NEVER ALARM'' @ nl
      else
        let elapsed = Sub now lastSeen;
            h = elapsed div Hour;
            m = (elapsed mod Hour) div Minute;
            s = (elapsed mod Minute) div Second
        in k @ '' '' @ appendFormatRFC3339 lastSeen False @ '' ''
           @ decimal h @ ''h '' @ decimal m @ ''m '' @ decimal s @ ''s ''
           @ verdict_word (evaluate dur lastSeen now) @ nl)"

definition statusHandler :: "Time \<Rightarrow> request \<Rightarrow> server \<Rightarrow> handled" where
  "statusHandler now r srv =
     (let k = req_key r in
      case parse k of
        Panic \<Rightarrow> Panic
      | Return (dur, ok) \<Rightarrow>
          if \<not> ok then Return (http_Error ''Invalid key'' 400, srv, False)
          else
            let lastCheckin = map_index (checkins srv) k
            in Return (\<lparr>resp_status = 200, resp_body = printStatus k dur lastCheckin now\<rparr>,
                       srv, False))"

text \<open>
  \<open>listHandler\<close> ranges over a clone of the map. Go leaves the order of that
  iteration open; the model lists the entries in the order of the association list.
\<close>

definition map_entries :: "registry \<Rightarrow> (string \<times> Time) list" where
  "map_entries m = (case m of None \<Rightarrow> [] | Some kvs \<Rightarrow> kvs)"

fun list_lines :: "Time \<Rightarrow> (string \<times> Time) list \<Rightarrow> string outcome" where
  "list_lines now [] = Return []"
| "list_lines now ((k, lastCheckin) # rest) =
     (case parse k of
        Panic \<Rightarrow> Panic
      | Return (dur, ok) \<Rightarrow>
          (case list_lines now rest of
             Panic \<Rightarrow> Panic
           | Return out \<Rightarrow> Return (printStatus k dur lastCheckin now @ out)))"

definition listHandler :: "Time \<Rightarrow> request \<Rightarrow> server \<Rightarrow> handled" where
  "listHandler now r srv =
     (let m = map_entries (checkins srv) in
      case list_lines now m of
        Panic \<Rightarrow> Panic
      | Return out \<Rightarrow>
          Return (\<lparr>resp_status = 200,
                    resp_body = ''watchdogd has '' @ decimal (int (length m)) @ '' keys'' @ nl @ out\<rparr>,
                  srv, False))"

text \<open>The window that a key names: its number scaled by its unit, in nanoseconds.\<close>

definition key_window :: "string \<Rightarrow> Duration" where
  "key_window k = dec_val (key_digits k) * unit_nanos (last k)"


subsection \<open>The shape of a status line\<close>

lemma printStatus_evaluate:
  "printStatus k dur lastCheckin now =
     (if IsZero lastCheckin then k @ '' '' @ verdict_word (evaluate dur lastCheckin now) @ nl
      else k @ '' '' @ appendFormatRFC3339 lastCheckin False @ '' ''
           @ fmt_f0 (Hours (Sub now lastCheckin)) @ ''h ''
           @ fmt_f0 (Minutes (Sub now lastCheckin)) @ ''m ''
           @ fmt_f0 (Seconds (Sub now lastCheckin)) @ ''s ''
           @ verdict_word (evaluate dur lastCheckin now) @ nl)"
  by (simp add: printStatus_def evaluate_def verdict_word_def Let_def)

lemma whole_hours_fields:
  assumes "0 \<le> n" "n * Hour \<le> maxDuration"
  shows "fmt_f0 (Hours (n * Hour)) = decimal n"
    and "fmt_f0 (Minutes (n * Hour)) = decimal (60 * n)"
    and "fmt_f0 (Seconds (n * Hour)) = decimal (3600 * n)"
proof -
  from assms have b: "n < 2 ^ 53" "60 * n < 2 ^ 53" "3600 * n < 2 ^ 53"
    by (simp_all add: Hour_def Minute_def Second_def maxDuration_def)
  have m: "n * Hour = (60 * n) * Minute" "n * Hour = (3600 * n) * Second"
    by (simp_all add: Hour_def Minute_def)
  have "float_parts (n * Hour) Hour = of_int n"
    by (rule float_parts_whole) (use assms b in \<open>simp_all add: Hour_def Minute_def Second_def\<close>)
  then have "fmt_f0 (Hours (n * Hour)) = fmt_f0 (of_int n)"
    unfolding Hours_def by (simp only:)
  also have "\<dots> = decimal n" by (rule fmt_f0_int) (use assms in simp)
  finally show "fmt_f0 (Hours (n * Hour)) = decimal n" .
  have "float_parts ((60 * n) * Minute) Minute = of_int (60 * n)"
    by (rule float_parts_whole) (use assms b in \<open>simp_all add: Minute_def Second_def\<close>)
  then have "fmt_f0 (Minutes (n * Hour)) = fmt_f0 (of_int (60 * n))"
    unfolding Minutes_def m(1) by (simp only:)
  also have "\<dots> = decimal (60 * n)" by (rule fmt_f0_int) (use assms in simp)
  finally show "fmt_f0 (Minutes (n * Hour)) = decimal (60 * n)" .
  have "float_parts ((3600 * n) * Second) Second = of_int (3600 * n)"
    by (rule float_parts_whole) (use assms b in \<open>simp_all add: Second_def\<close>)
  then have "fmt_f0 (Seconds (n * Hour)) = fmt_f0 (of_int (3600 * n))"
    unfolding Seconds_def m(2) by (simp only:)
  also have "\<dots> = decimal (3600 * n)" by (rule fmt_f0_int) (use assms in simp)
  finally show "fmt_f0 (Seconds (n * Hour)) = decimal (3600 * n)" .
qed

text \<open>
  Claim C3, as amended. For a key whose last check-in is the zero time (never
  checked in) the output is exactly the line \<open><key> NEVER ALARM\<close>. Otherwise it is
  the single line \<open><key> <lastSeenRFC3339> <H>h <M>m <S>s <VERDICT>\<close> with the
  verdict \<open>OKAY\<close> or \<open>ALARM\<close>, where \<open>H\<close>, \<open>M\<close> and \<open>S\<close> are not components of
  a breakdown: each is the \<^emph>\<open>whole\<close> elapsed time, expressed in hours, in minutes
  and in seconds, as \<open>float64\<close> arithmetic and \<open>%.0f\<close> render it. When the
  elapsed time \<open>e\<close> (in nanoseconds) is not negative and fits a \<open>Duration\<close>, each
  field is an integer that differs from the exact quotient (\<open>e / 3.6*10^12\<close>,
  \<open>e / 6*10^10\<close>, \<open>e / 10^9\<close>) by at most \<open>1/2 + 2^-19\<close>: the quotient rounded
  to a nearest integer, up to the rounding error of \<open>float64\<close>. After exactly
  \<open>n\<close> hours the three fields are \<open>n\<close>, \<open>60 n\<close> and \<open>3600 n\<close>.
\<close>

theorem printStatus_fields:
  "printStatus k dur lastCheckin now =
     (if IsZero lastCheckin then k @ '' NEVER ALARM\<newline>''
      else k @ '' '' @ appendFormatRFC3339 lastCheckin False @ '' ''
           @ fmt_f0 (Hours (Sub now lastCheckin)) @ ''h ''
           @ fmt_f0 (Minutes (Sub now lastCheckin)) @ ''m ''
           @ fmt_f0 (Seconds (Sub now lastCheckin)) @ ''s ''
           @ (if Sub now lastCheckin > dur then ''ALARM\<newline>'' else ''OKAY\<newline>''))
   \<and> (\<not> IsZero lastCheckin \<and> 0 \<le> e \<and> e \<le> maxDuration
        \<and> e = (sec now - sec lastCheckin) * 1000000000 + (nsec now - nsec lastCheckin) \<longrightarrow>
        (\<exists>h m s. printStatus k dur lastCheckin now =
              k @ '' '' @ appendFormatRFC3339 lastCheckin False @ '' ''
              @ decimal h @ ''h '' @ decimal m @ ''m '' @ decimal s @ ''s ''
              @ (if e > dur then ''ALARM\<newline>'' else ''OKAY\<newline>'')
          \<and> 0 \<le> h \<and> 0 \<le> m \<and> 0 \<le> s
          \<and> \<bar>of_int h - of_int e / (3600000000000 :: rat)\<bar> \<le> 1 / 2 + 1 / 2 ^ 19
          \<and> \<bar>of_int m - of_int e / (60000000000 :: rat)\<bar> \<le> 1 / 2 + 1 / 2 ^ 19
          \<and> \<bar>of_int s - of_int e / (1000000000 :: rat)\<bar> \<le> 1 / 2 + 1 / 2 ^ 19))
   \<and> (\<not> IsZero lastCheckin \<and> 0 \<le> n \<and> n \<le> 2562047
        \<and> (sec now - sec lastCheckin) * 1000000000 + (nsec now - nsec lastCheckin)
            = n * 3600000000000 \<longrightarrow>
        printStatus k dur lastCheckin now =
          k @ '' '' @ appendFormatRFC3339 lastCheckin False @ '' ''
            @ decimal n @ ''h '' @ decimal (60 * n) @ ''m '' @ decimal (3600 * n) @ ''s ''
            @ (if n * 3600000000000 > dur then ''ALARM\<newline>'' else ''OKAY\<newline>''))"
proof (intro conjI impI)
  show "printStatus k dur lastCheckin now =
     (if IsZero lastCheckin then k @ '' NEVER ALARM\<newline>''
      else k @ '' '' @ appendFormatRFC3339 lastCheckin False @ '' ''
           @ fmt_f0 (Hours (Sub now lastCheckin)) @ ''h ''
           @ fmt_f0 (Minutes (Sub now lastCheckin)) @ ''m ''
           @ fmt_f0 (Seconds (Sub now lastCheckin)) @ ''s ''
           @ (if Sub now lastCheckin > dur then ''ALARM\<newline>'' else ''OKAY\<newline>''))"
    by (simp add: printStatus_def Let_def nl_def)
next
  assume a: "\<not> IsZero lastCheckin \<and> 0 \<le> e \<and> e \<le> maxDuration
        \<and> e = (sec now - sec lastCheckin) * 1000000000 + (nsec now - nsec lastCheckin)"
  then have e: "0 \<le> e" "e \<le> maxDuration" and nb: "nanos_between now lastCheckin = e"
    and nz: "\<not> IsZero lastCheckin"
    by (simp_all add: nanos_between_def)
  have sub: "Sub now lastCheckin = e"
    using e nb Sub_exact [of now lastCheckin] by (simp add: minDuration_def)
  have u: "Second \<le> Hour" "Second \<le> Minute" "Second \<le> Second"
    by (simp_all add: Hour_def Minute_def Second_def)
  from field_error [OF e u(1)] obtain h where h: "fmt_f0 (Hours e) = decimal h" "0 \<le> h"
    "\<bar>of_int h - of_int e / (of_int Hour :: rat)\<bar> \<le> 1 / 2 + 1 / 2 ^ 19"
    unfolding Hours_def by blast
  from field_error [OF e u(2)] obtain m where m: "fmt_f0 (Minutes e) = decimal m" "0 \<le> m"
    "\<bar>of_int m - of_int e / (of_int Minute :: rat)\<bar> \<le> 1 / 2 + 1 / 2 ^ 19"
    unfolding Minutes_def by blast
  from field_error [OF e u(3)] obtain s where s: "fmt_f0 (Seconds e) = decimal s" "0 \<le> s"
    "\<bar>of_int s - of_int e / (of_int Second :: rat)\<bar> \<le> 1 / 2 + 1 / 2 ^ 19"
    unfolding Seconds_def by blast
  have c: "(of_int Hour :: rat) = 3600000000000" "(of_int Minute :: rat) = 60000000000"
    "(of_int Second :: rat) = 1000000000"
    by (simp_all add: Hour_def Minute_def Second_def)
  have l: "printStatus k dur lastCheckin now =
              k @ '' '' @ appendFormatRFC3339 lastCheckin False @ '' ''
              @ decimal h @ ''h '' @ decimal m @ ''m '' @ decimal s @ ''s ''
              @ (if e > dur then ''ALARM\<newline>'' else ''OKAY\<newline>'')"
    using nz by (simp add: printStatus_def Let_def nl_def sub h(1) m(1) s(1))
  from l h(2,3) m(2,3) s(2,3)
  show "\<exists>h m s. printStatus k dur lastCheckin now =
              k @ '' '' @ appendFormatRFC3339 lastCheckin False @ '' ''
              @ decimal h @ ''h '' @ decimal m @ ''m '' @ decimal s @ ''s ''
              @ (if e > dur then ''ALARM\<newline>'' else ''OKAY\<newline>'')
          \<and> 0 \<le> h \<and> 0 \<le> m \<and> 0 \<le> s
          \<and> \<bar>of_int h - of_int e / (3600000000000 :: rat)\<bar> \<le> 1 / 2 + 1 / 2 ^ 19
          \<and> \<bar>of_int m - of_int e / (60000000000 :: rat)\<bar> \<le> 1 / 2 + 1 / 2 ^ 19
          \<and> \<bar>of_int s - of_int e / (1000000000 :: rat)\<bar> \<le> 1 / 2 + 1 / 2 ^ 19"
    unfolding c by blast
next
  assume a: "\<not> IsZero lastCheckin \<and> 0 \<le> n \<and> n \<le> 2562047
        \<and> (sec now - sec lastCheckin) * 1000000000 + (nsec now - nsec lastCheckin)
            = n * 3600000000000"
  then have n: "0 \<le> n" and le: "n * Hour \<le> maxDuration"
    and nb: "nanos_between now lastCheckin = n * Hour"
    by (simp_all add: nanos_between_def Hour_def Minute_def Second_def maxDuration_def)
  have sub: "Sub now lastCheckin = n * Hour"
    using n le nb Sub_exact [of now lastCheckin]
    by (simp add: minDuration_def Hour_def Minute_def Second_def)
  note w = whole_hours_fields [OF n le]
  have hh: "n * Hour = n * 3600000000000" by (simp add: Hour_def Minute_def Second_def)
  show "printStatus k dur lastCheckin now =
          k @ '' '' @ appendFormatRFC3339 lastCheckin False @ '' ''
            @ decimal n @ ''h '' @ decimal (60 * n) @ ''m '' @ decimal (3600 * n) @ ''s ''
            @ (if n * 3600000000000 > dur then ''ALARM\<newline>'' else ''OKAY\<newline>'')"
    using a by (simp add: printStatus_def Let_def nl_def sub w) (simp add: hh)
qed

theorem printStatus_fields_witness:
  "\<not> IsZero t0 \<and> (0::int) \<le> 2 \<and> (2::int) \<le> 2562047
   \<and> (sec t0_plus_2h - sec t0) * 1000000000 + (nsec t0_plus_2h - nsec t0) = 2 * 3600000000000
   \<and> printStatus ''backup-1h'' Hour t0 t0_plus_2h
       = ''backup-1h 2025-11-29T08:00:00Z 2h 120m 7200s ALARM\<newline>''
   \<and> (0::int) \<le> 7200000000000 \<and> 7200000000000 \<le> maxDuration
   \<and> (\<exists>h m s. printStatus ''backup-1h'' Hour t0 t0_plus_2h =
              ''backup-1h'' @ '' '' @ appendFormatRFC3339 t0 False @ '' ''
              @ decimal h @ ''h '' @ decimal m @ ''m '' @ decimal s @ ''s ''
              @ (if 7200000000000 > Hour then ''ALARM\<newline>'' else ''OKAY\<newline>'')
          \<and> 0 \<le> h \<and> 0 \<le> m \<and> 0 \<le> s
          \<and> \<bar>of_int h - of_int 7200000000000 / (3600000000000 :: rat)\<bar> \<le> 1 / 2 + 1 / 2 ^ 19
          \<and> \<bar>of_int m - of_int 7200000000000 / (60000000000 :: rat)\<bar> \<le> 1 / 2 + 1 / 2 ^ 19
          \<and> \<bar>of_int s - of_int 7200000000000 / (1000000000 :: rat)\<bar> \<le> 1 / 2 + 1 / 2 ^ 19)"
proof -
  have c: "\<not> IsZero t0 \<and> (0::int) \<le> 2 \<and> (2::int) \<le> 2562047
   \<and> (sec t0_plus_2h - sec t0) * 1000000000 + (nsec t0_plus_2h - nsec t0) = 2 * 3600000000000"
    by (simp add: t0_def t0_plus_2h_def IsZero_def)
  have c2: "\<not> IsZero t0 \<and> (0::int) \<le> 7200000000000 \<and> 7200000000000 \<le> maxDuration
   \<and> 7200000000000 = (sec t0_plus_2h - sec t0) * 1000000000 + (nsec t0_plus_2h - nsec t0)"
    by (simp add: t0_def t0_plus_2h_def IsZero_def maxDuration_def)
  have f: "appendFormatRFC3339 t0 False = ''2025-11-29T08:00:00Z''" by code_simp
  have d: "decimal 2 = ''2''" "decimal 120 = ''120''" "decimal 7200 = ''7200''"
    by code_simp+
  have h: "Hour < 7200000000000" by (simp add: Hour_def Minute_def Second_def)
  from printStatus_fields [of "''backup-1h''" Hour t0 t0_plus_2h _ 2,
      THEN conjunct2, THEN conjunct2, rule_format, OF c]
  have l: "printStatus ''backup-1h'' Hour t0 t0_plus_2h
       = ''backup-1h 2025-11-29T08:00:00Z 2h 120m 7200s ALARM\<newline>''"
    by (simp add: f d h)
  note e = printStatus_fields [of "''backup-1h''" Hour t0 t0_plus_2h 7200000000000,
      THEN conjunct2, THEN conjunct1, rule_format, OF c2]
  from c c2 l e show ?thesis by blast
qed

text \<open>
  Claim C3 as stated fails: two hours after the check-in, a breakdown into
  components reads \<open>2h 0m 0s\<close>, and \<open>printStatus\<close> writes \<open>2h 120m 7200s\<close>.
\<close>

theorem printStatus_components_counterexample:
  "printStatus ''backup-1h'' Hour t0 t0_plus_2h
     = ''backup-1h 2025-11-29T08:00:00Z 2h 120m 7200s ALARM\<newline>''
   \<and> spec_status_line ''backup-1h'' Hour t0 t0_plus_2h
     = ''backup-1h 2025-11-29T08:00:00Z 2h 0m 0s ALARM\<newline>''
   \<and> printStatus ''backup-1h'' Hour t0 t0_plus_2h
     \<noteq> spec_status_line ''backup-1h'' Hour t0 t0_plus_2h"
  by code_simp


section \<open>Looking up a key\<close>

text \<open>
  \<open>statusHandler\<close> reads \<open>checkins[key]\<close> without the presence flag, so a key with
  no entry yields the zero value of \<open>time.Time\<close>, which \<open>printStatus\<close> detects with
  \<open>IsZero\<close>. The zero value is the instant January 1, year 1, 00:00:00 UTC; the
  Unix epoch lies 62135596800 seconds later.
\<close>

definition unixEpoch :: Time where
  "unixEpoch = \<lparr>sec = 62135596800, nsec = 0, zone = 0\<rparr>"

definition lookup :: "server \<Rightarrow> string \<Rightarrow> Time" where
  "lookup srv k = map_index (checkins srv) k"

lemma statusHandler_lookup:
  "parse k = Return (dur, True) \<Longrightarrow>
     statusHandler now \<lparr>req_key = k, req_authorization = a, req_token = q\<rparr> srv
       = Return (\<lparr>resp_status = 200, resp_body = printStatus k dur (lookup srv k) now\<rparr>, srv, False)"
  by (simp add: statusHandler_def lookup_def Let_def)

text \<open>
  Claim C5, as amended. For every key the lookup returns the recorded timestamp, or
  the zero time when the key has no entry. The zero time differs from the Unix
  epoch and from every timestamp with a non-zero second or nanosecond count, but it
  is a time value like any other: it is written \<open>0001-01-01T00:00:00Z\<close> and is
  read back from that text. The lookup yields the never-seen marker exactly when
  the key has no entry or its entry holds the zero time.
\<close>

theorem lookup_sentinel:
  "(registry_get (checkins srv) k = None \<longrightarrow> lookup srv k = zeroTime)
   \<and> (\<forall>t. registry_get (checkins srv) k = Some t \<longrightarrow> lookup srv k = t)
   \<and> (IsZero (lookup srv k) \<longleftrightarrow>
        registry_get (checkins srv) k = None
        \<or> (\<exists>t. registry_get (checkins srv) k = Some t \<and> sec t = 0 \<and> nsec t = 0))
   \<and> \<not> IsZero unixEpoch
   \<and> appendFormatRFC3339 zeroTime False = ''0001-01-01T00:00:00Z''
   \<and> parseRFC3339 ''0001-01-01T00:00:00Z'' = Some zeroTime"
proof -
  have a: "registry_get (checkins srv) k = None \<longrightarrow> lookup srv k = zeroTime"
    by (simp add: registry_get_def lookup_def map_index_def split: option.splits)
  have b: "\<forall>t. registry_get (checkins srv) k = Some t \<longrightarrow> lookup srv k = t"
    by (simp add: registry_get_def lookup_def map_index_def split: option.splits)
  have c: "IsZero (lookup srv k) \<longleftrightarrow>
        registry_get (checkins srv) k = None
        \<or> (\<exists>t. registry_get (checkins srv) k = Some t \<and> sec t = 0 \<and> nsec t = 0)"
    by (cases "registry_get (checkins srv) k")
       (use a b in \<open>simp_all add: IsZero_def zeroTime_def\<close>)
  have d: "\<not> IsZero unixEpoch" by (simp add: IsZero_def unixEpoch_def)
  have e: "appendFormatRFC3339 zeroTime False = ''0001-01-01T00:00:00Z''" by code_simp
  have f: "parseRFC3339 ''0001-01-01T00:00:00Z'' = Some zeroTime" by code_simp
  from a b c d e f show ?thesis by blast
qed

theorem lookup_sentinel_witness:
  "registry_get (checkins example_server) ''db-90m'' = Some \<lparr>sec = 63900000000, nsec = 5, zone = 0\<rparr>
   \<and> lookup example_server ''db-90m'' = \<lparr>sec = 63900000000, nsec = 5, zone = 0\<rparr>
   \<and> registry_get (checkins example_server) ''db-1h'' = None
   \<and> lookup example_server ''db-1h'' = zeroTime"
proof -
  have a: "registry_get (checkins example_server) ''db-90m''
             = Some \<lparr>sec = 63900000000, nsec = 5, zone = 0\<rparr>"
    by (simp add: example_server_def registry_get_def)
  have b: "registry_get (checkins example_server) ''db-1h'' = None"
    by (simp add: example_server_def registry_get_def)
  from lookup_sentinel [of example_server "''db-90m''"] a
  have c: "lookup example_server ''db-90m'' = \<lparr>sec = 63900000000, nsec = 5, zone = 0\<rparr>"
    by simp
  from lookup_sentinel [of example_server "''db-1h''"] b
  have d: "lookup example_server ''db-1h'' = zeroTime"
    by simp
  from a b c d show ?thesis by simp
qed

text \<open>
  A database file with one entry whose timestamp is \<open>0001-01-01T00:00:00Z\<close>, and
  the server after loading that file into the empty registry.
\<close>

definition zero_entry_file :: disk_file where
  "zero_entry_file = FileData (JSON (JObject [(''a-1h'', JString ''0001-01-01T00:00:00Z'')]))"

definition zero_entry_server :: server where
  "zero_entry_server = empty_server\<lparr>checkins := Some [(''a-1h'', zeroTime)]\<rparr>"

text \<open>
  Claim C5 as stated fails: the key \<open>a-1h\<close> with a recorded timestamp (loaded from
  the database file) and the same key with no entry give the same lookup result,
  and the status of the recorded key reads \<open>NEVER ALARM\<close>.
\<close>

theorem lookup_zero_entry_counterexample:
  "load (\<lambda>s. None) zero_entry_file empty_server = Some (zero_entry_server, [])
   \<and> registry_get (checkins zero_entry_server) ''a-1h'' = Some zeroTime
   \<and> registry_get (checkins empty_server) ''a-1h'' = None
   \<and> lookup zero_entry_server ''a-1h'' = lookup empty_server ''a-1h''
   \<and> statusHandler t0 \<lparr>req_key = ''a-1h'', req_authorization = [], req_token = []\<rparr> zero_entry_server
       = Return (\<lparr>resp_status = 200, resp_body = ''a-1h NEVER ALARM\<newline>''\<rparr>, zero_entry_server, False)"
  by code_simp

section \<open>The verdict of a status line\<close>

lemma printStatus_tail:
  "printStatus k w t now =
     (if IsZero t then k @ '' NEVER ALARM\<newline>''
      else (k @ '' '' @ appendFormatRFC3339 t False @ '' ''
           @ fmt_f0 (Hours (Sub now t)) @ ''h ''
           @ fmt_f0 (Minutes (Sub now t)) @ ''m ''
           @ fmt_f0 (Seconds (Sub now t)) @ ''s'')
           @ (if Sub now t > w then '' ALARM\<newline>'' else '' OKAY\<newline>''))"
  by (simp add: printStatus_def Let_def nl_def)

lemma tail_neq:
  "xs @ ''s OKAY\<newline>'' \<noteq> ys @ '' ALARM\<newline>''"
  "xs @ ''s ALARM\<newline>'' \<noteq> ys @ '' OKAY\<newline>''"
  "xs @ '' NEVER ALARM\<newline>'' \<noteq> ys @ '' OKAY\<newline>''"
  "xs @ ''s OKAY\<newline>'' \<noteq> ys @ '' NEVER ALARM\<newline>''"
  "xs @ ''s ALARM\<newline>'' \<noteq> ys @ '' NEVER ALARM\<newline>''"
proof -
  have a: "us @ [a, b] = vs @ [c, d] \<Longrightarrow> a = c" for us vs :: string and a b c d
    by simp
  show "xs @ ''s OKAY\<newline>'' \<noteq> ys @ '' ALARM\<newline>''"
    using a [of "xs @ ''s OKA''" "CHR ''Y''" "CHR 0x0A" "ys @ '' ALAR''" "CHR ''M''" "CHR 0x0A"]
    by auto
  show "xs @ ''s ALARM\<newline>'' \<noteq> ys @ '' OKAY\<newline>''"
    using a [of "xs @ ''s ALAR''" "CHR ''M''" "CHR 0x0A" "ys @ '' OKA''" "CHR ''Y''" "CHR 0x0A"]
    by auto
  show "xs @ '' NEVER ALARM\<newline>'' \<noteq> ys @ '' OKAY\<newline>''"
    using a [of "xs @ '' NEVER ALAR''" "CHR ''M''" "CHR 0x0A" "ys @ '' OKA''" "CHR ''Y''" "CHR 0x0A"]
    by auto
  show "xs @ ''s OKAY\<newline>'' \<noteq> ys @ '' NEVER ALARM\<newline>''"
    using a [of "xs @ ''s OKA''" "CHR ''Y''" "CHR 0x0A" "ys @ '' NEVER ALAR''" "CHR ''M''" "CHR 0x0A"]
    by auto
  have b: "us @ [a, b1, b2, b3, b4, b5, b6, b7] = vs @ [c, b1, b2, b3, b4, b5, b6, b7] \<Longrightarrow> a = c"
    for us vs :: string and a b1 b2 b3 b4 b5 b6 b7 c
    by simp
  show "xs @ ''s ALARM\<newline>'' \<noteq> ys @ '' NEVER ALARM\<newline>''"
    using b [of xs "CHR ''s''" "CHR '' ''" "CHR ''A''" "CHR ''L''" "CHR ''A''" "CHR ''R''" "CHR ''M''"
        "CHR 0x0A" "ys @ '' NEVE''" "CHR ''R''"]
    by auto
qed

lemma lookup_seen:
  "(\<exists>t. registry_get (checkins srv) k = Some t \<and> \<not> (sec t = 0 \<and> nsec t = 0))
     \<longleftrightarrow> \<not> IsZero (lookup srv k)"
  by (cases "checkins srv"; cases "registry_get (checkins srv) k")
     (auto simp: registry_get_def lookup_def map_index_def IsZero_def zeroTime_def)

text \<open>
  Claim C1, as amended. For every window that is a \<open>Duration\<close> (at least
  \<open>-2^63\<close> nanoseconds) below the largest one (\<open>2^63 - 1\<close> nanoseconds), every
  state of the registry, key and current time,
  with \<open>lastSeen\<close> what the lookup of the key returns and the elapsed time
  \<open>now - lastSeen\<close> counted exactly in nanoseconds: the status line ends in
  \<open>OKAY\<close> iff the key has an entry that is not the zero time and
  \<open>now - lastSeen \<le> window\<close>; it ends in \<open>ALARM\<close> without being the never-seen line
  iff the key has such an entry and \<open>now - lastSeen > window\<close>; and it is the line
  \<open><key> NEVER ALARM\<close> iff the key has no entry or its entry is the zero time.
  The three conditions exclude each other and cover every case, and at
  \<open>now - lastSeen = window\<close> the verdict is \<open>OKAY\<close>.
\<close>

theorem printStatus_verdicts:
  "minDuration \<le> w \<and> w < maxDuration \<longrightarrow>
   (let lastSeen = lookup srv k;
        line = printStatus k w lastSeen now;
        seen = (\<exists>t. registry_get (checkins srv) k = Some t \<and> \<not> (sec t = 0 \<and> nsec t = 0));
        elapsed = (sec now - sec lastSeen) * 1000000000 + (nsec now - nsec lastSeen);
        okay = (\<exists>pre. line = pre @ '' OKAY\<newline>'');
        alarm = ((\<exists>pre. line = pre @ '' ALARM\<newline>'') \<and> line \<noteq> k @ '' NEVER ALARM\<newline>'');
        never = (line = k @ '' NEVER ALARM\<newline>'')
    in (okay \<longleftrightarrow> seen \<and> elapsed \<le> w)
     \<and> (alarm \<longleftrightarrow> seen \<and> elapsed > w)
     \<and> (never \<longleftrightarrow> \<not> seen)
     \<and> (okay \<or> alarm \<or> never)
     \<and> \<not> (okay \<and> alarm) \<and> \<not> (okay \<and> never) \<and> \<not> (alarm \<and> never)
     \<and> (seen \<and> elapsed = w \<longrightarrow> okay))"
proof -
  let ?t = "lookup srv k"
  let ?line = "printStatus k w ?t now"
  let ?elapsed = "(sec now - sec ?t) * 1000000000 + (nsec now - nsec ?t)"
  let ?body = "k @ '' '' @ appendFormatRFC3339 ?t False @ '' ''
           @ fmt_f0 (Hours (Sub now ?t)) @ ''h ''
           @ fmt_f0 (Minutes (Sub now ?t)) @ ''m ''
           @ fmt_f0 (Seconds (Sub now ?t))"
  let ?okay = "\<exists>pre. ?line = pre @ '' OKAY\<newline>''"
  let ?alarm = "(\<exists>pre. ?line = pre @ '' ALARM\<newline>'') \<and> ?line \<noteq> k @ '' NEVER ALARM\<newline>''"
  let ?never = "?line = k @ '' NEVER ALARM\<newline>''"
  have seen: "(\<exists>t. registry_get (checkins srv) k = Some t \<and> \<not> (sec t = 0 \<and> nsec t = 0))
     \<longleftrightarrow> \<not> IsZero ?t" by (rule lookup_seen)
  have "(?okay \<longleftrightarrow> \<not> IsZero ?t \<and> ?elapsed \<le> w)
     \<and> (?alarm \<longleftrightarrow> \<not> IsZero ?t \<and> ?elapsed > w)
     \<and> (?never \<longleftrightarrow> \<not> \<not> IsZero ?t)
     \<and> (?okay \<or> ?alarm \<or> ?never)
     \<and> \<not> (?okay \<and> ?alarm) \<and> \<not> (?okay \<and> ?never) \<and> \<not> (?alarm \<and> ?never)
     \<and> (\<not> IsZero ?t \<and> ?elapsed = w \<longrightarrow> ?okay)"
    if w: "minDuration \<le> w \<and> w < maxDuration"
  proof -
    have gt: "(Sub now ?t > w) = (?elapsed > w)"
      using w Sub_gt_iff [of w now ?t] by (simp add: nanos_between_def)
    consider (never) "IsZero ?t" | (alarm) "\<not> IsZero ?t" "?elapsed > w"
      | (okay) "\<not> IsZero ?t" "?elapsed \<le> w" by linarith
    then show ?thesis
    proof cases
      case never
      then have l: "?line = k @ '' NEVER ALARM\<newline>''" by (simp add: printStatus_tail)
      have "\<not> ?okay" unfolding l using tail_neq(3) [of k] by blast
      then show ?thesis using never l by blast
    next
      case alarm
      then have l: "?line = (?body @ ''s'') @ '' ALARM\<newline>''"
        by (simp add: printStatus_tail gt)
      have a: "\<exists>pre. ?line = pre @ '' ALARM\<newline>''" using l by blast
      have b: "\<not> ?never" using tail_neq(5) [of ?body k] by (simp add: l)
      have c: "\<not> ?okay" using tail_neq(2) [of ?body] by (simp add: l)
      from alarm(2) have d: "\<not> ?elapsed \<le> w" "?elapsed \<noteq> w" by simp_all
      from a b c d alarm show ?thesis by blast
    next
      case okay
      then have l: "?line = (?body @ ''s'') @ '' OKAY\<newline>''"
        by (simp add: printStatus_tail gt)
      have a: "?okay" using l by blast
      have b: "\<not> ?never" using tail_neq(4) [of ?body k] by (simp add: l)
      have c: "\<not> (\<exists>pre. ?line = pre @ '' ALARM\<newline>'')"
        using tail_neq(1) [of ?body] by (simp add: l)
      from okay(2) have d: "\<not> ?elapsed > w" by simp
      from a b c d okay show ?thesis by blast
    qed
  qed
  then show ?thesis unfolding Let_def seen by blast
qed

text \<open>A server whose registry holds one check-in.\<close>

definition seen_server :: server where
  "seen_server = empty_server\<lparr>checkins := Some [(''backup-1h'', t0)]\<rparr>"

theorem printStatus_verdicts_witness:
  "minDuration \<le> Hour \<and> Hour < maxDuration
   \<and> registry_get (checkins seen_server) ''backup-1h'' = Some t0
   \<and> \<not> (sec t0 = 0 \<and> nsec t0 = 0)
   \<and> (sec t0_plus_2h - sec (lookup seen_server ''backup-1h'')) * 1000000000
       + (nsec t0_plus_2h - nsec (lookup seen_server ''backup-1h'')) > Hour
   \<and> (\<exists>pre. printStatus ''backup-1h'' Hour (lookup seen_server ''backup-1h'') t0_plus_2h
              = pre @ '' ALARM\<newline>'')"
proof -
  have a: "minDuration \<le> Hour \<and> Hour < maxDuration"
    by (simp add: minDuration_def maxDuration_def Hour_def Minute_def Second_def)
  have b: "registry_get (checkins seen_server) ''backup-1h'' = Some t0"
    by (simp add: seen_server_def registry_get_def)
  have c: "\<not> (sec t0 = 0 \<and> nsec t0 = 0)" by (simp add: t0_def)
  have l: "lookup seen_server ''backup-1h'' = t0"
    by (simp add: seen_server_def lookup_def map_index_def)
  have d: "(sec t0_plus_2h - sec (lookup seen_server ''backup-1h'')) * 1000000000
       + (nsec t0_plus_2h - nsec (lookup seen_server ''backup-1h'')) > Hour"
    by (simp add: l t0_def t0_plus_2h_def Hour_def Minute_def Second_def)
  from printStatus_verdicts [of Hour seen_server "''backup-1h''" t0_plus_2h] a b c d
  have "\<exists>pre. printStatus ''backup-1h'' Hour (lookup seen_server ''backup-1h'') t0_plus_2h
              = pre @ '' ALARM\<newline>''"
    unfolding Let_def by blast
  with a b c d show ?thesis by blast
qed

text \<open>
  Claim C1 as stated fails in two places. A key whose recorded timestamp is the
  zero time has been seen, and its verdict is \<open>NEVER\<close>. And with the largest
  \<open>Duration\<close> as window, an elapsed time beyond it (here more than two thousand
  years) gives \<open>OKAY\<close>, for \<open>Sub\<close> saturates at the largest \<open>Duration\<close>.
\<close>

theorem printStatus_verdicts_counterexample:
  "registry_get (checkins zero_entry_server) ''a-1h'' = Some zeroTime
   \<and> printStatus ''a-1h'' Hour (lookup zero_entry_server ''a-1h'') t0 = ''a-1h NEVER ALARM\<newline>''
   \<and> maxDuration < (sec t0 - 1) * 1000000000 + (nsec t0 - 0)
   \<and> printStatus ''a-1h'' maxDuration \<lparr>sec = 1, nsec = 0, zone = 0\<rparr> t0
       = ''a-1h 0001-01-01T00:00:01Z 2562048h 153722867m 9223372037s OKAY\<newline>''"
  by code_simp


section \<open>The keys of the registry\<close>

lemma parse_valid_window:
  assumes "key_shape k" "parse_ok k"
  shows "parse k = Return (key_window k, True)"
  using parse_shape [OF assms(1)] assms(2)
  by (simp add: parse_ok_def key_window_def split: if_splits)

lemma list_lines_valid:
  "list_all (\<lambda>(k, t). key_shape k \<and> parse_ok k) kvs \<Longrightarrow>
     list_lines now kvs = Return (concat (map (\<lambda>(k, t). printStatus k (key_window k) t now) kvs))"
proof (induction kvs)
  case Nil
  then show ?case by simp
next
  case (Cons e kvs)
  obtain k t where e: "e = (k, t)" by (cases e)
  with Cons.prems have "key_shape k" "parse_ok k" by simp_all
  then have "parse k = Return (key_window k, True)" by (rule parse_valid_window)
  with Cons e show ?case by simp
qed

text \<open>
  Claim C10. Starting from an empty registry, after any sequence of check-in
  requests (each behind \<open>authMiddleware\<close>, at any clock reading, with any key and
  credentials) every key of the registry is matched by \<open>keyRe\<close> and \<open>parse\<close>
  returns its window with \<open>ok = true\<close>. Hence the listing prints every entry with
  the window its key names, never with the zero window of the ignored failure
  result, and \<open>listHandler\<close> returns without a panic.
\<close>

theorem registry_keys_match_pattern:
  assumes "checkins srv = Some []"
  shows "list_all (\<lambda>(k, t). keyRe_group k \<noteq> None \<and> parse k = Return (key_window k, True))
           (map_entries (checkins (run_checkins ops srv)))
         \<and> list_lines now (map_entries (checkins (run_checkins ops srv)))
             = Return (concat (map (\<lambda>(k, t). printStatus k (key_window k) t now)
                 (map_entries (checkins (run_checkins ops srv)))))
         \<and> (\<exists>resp. listHandler now r (run_checkins ops srv)
                      = Return (resp, run_checkins ops srv, False))"
proof -
  let ?m = "map_entries (checkins (run_checkins ops srv))"
  from assms have "keys_valid (checkins srv)" by (simp add: keys_valid_def)
  then have "keys_valid (checkins (run_checkins ops srv))" by (rule run_checkins_keys_valid)
  then have v: "list_all (\<lambda>(k, t). key_shape k \<and> parse_ok k) ?m"
    by (simp add: keys_valid_def map_entries_def split: option.splits)
  have "\<And>k. key_shape k \<and> parse_ok k \<Longrightarrow>
          keyRe_group k \<noteq> None \<and> parse k = Return (key_window k, True)"
    using keyRe_group_None parse_valid_window by blast
  with v have a: "list_all (\<lambda>(k, t). keyRe_group k \<noteq> None \<and> parse k = Return (key_window k, True)) ?m"
    by (auto simp: list_all_iff)
  have b: "list_lines now ?m
             = Return (concat (map (\<lambda>(k, t). printStatus k (key_window k) t now) ?m))"
    using v by (rule list_lines_valid)
  then have c: "\<exists>resp. listHandler now r (run_checkins ops srv)
                      = Return (resp, run_checkins ops srv, False)"
    by (simp add: listHandler_def Let_def)
  from a b c show ?thesis by blast
qed

text \<open>
  Five check-in requests: an accepted one, one with a malformed key, one whose key
  overflows a \<open>Duration\<close>, one with a wrong token, and a second accepted one.
\<close>

definition example_checkins :: "(Time \<times> request) list" where
  "example_checkins =
     [(t0, \<lparr>req_key = ''backup-24h'', req_authorization = [''Bearer SECRET''], req_token = []\<rparr>),
      (t0, \<lparr>req_key = ''backup'', req_authorization = [''Bearer SECRET''], req_token = []\<rparr>),
      (t0, \<lparr>req_key = ''db-2562048h'', req_authorization = [], req_token = ''SECRET''\<rparr>),
      (t0, \<lparr>req_key = ''junk-1s'', req_authorization = [], req_token = ''WRONG''\<rparr>),
      (t0_plus_2h, \<lparr>req_key = ''db-90m'', req_authorization = [], req_token = ''SECRET''\<rparr>)]"

theorem registry_keys_match_pattern_witness:
  "checkins empty_server = Some []
   \<and> map_entries (checkins (run_checkins example_checkins empty_server))
       = [(''backup-24h'', t0), (''db-90m'', t0_plus_2h)]
   \<and> list_lines t0_plus_2h (map_entries (checkins (run_checkins example_checkins empty_server)))
       = Return (''backup-24h 2025-11-29T08:00:00Z 2h 120m 7200s OKAY\<newline>''
                 @ ''db-90m 2025-11-29T10:00:00Z 0h 0m 0s OKAY\<newline>'')"
proof -
  have a: "checkins empty_server = Some []" by (simp add: empty_server_def)
  have b: "map_entries (checkins (run_checkins example_checkins empty_server))
       = [(''backup-24h'', t0), (''db-90m'', t0_plus_2h)]"
    by code_simp
  have c: "concat (map (\<lambda>(k, t). printStatus k (key_window k) t t0_plus_2h)
             [(''backup-24h'', t0), (''db-90m'', t0_plus_2h)])
           = ''backup-24h 2025-11-29T08:00:00Z 2h 120m 7200s OKAY\<newline>''
                 @ ''db-90m 2025-11-29T10:00:00Z 0h 0m 0s OKAY\<newline>''"
    by code_simp
  from registry_keys_match_pattern [OF a, of example_checkins t0_plus_2h] b c show ?thesis
    using a by simp
qed

end
